theory Spec2Isabelle
  imports Complex_Main "HOL-Library.Sublist" "HOL-Library.Log_Nat" "HOL-Library.Code_Target_Numeral"
begin

section \<open>JavaScript values used by the page cursor codec\<close>

text \<open>
  A JavaScript \<open>number\<close>, an IEEE 754 double: NaN, the two infinities, or a finite value,
  kept as the rational number it is. Every finite value that the functions below build
  passes through \<open>to_double\<close>, which rounds a rational to the nearest double, ties to
  even, with subnormal values, overflow to an infinity and underflow to zero. Negative
  zero is identified with zero (the code never distinguishes them: \<open>-0 < 0\<close> is false,
  \<open>-0 === 0\<close> is true, and \<open>slice\<close> reads \<open>-0\<close> as 0).
\<close>

datatype jsnum = NaN | PosInf | NegInf | Fin rat

definition pow2 :: "int \<Rightarrow> rat" where
  "pow2 e = 2 powi e"

definition pow10 :: "int \<Rightarrow> rat" where
  "pow10 e = (if 0 \<le> e then 10 ^ nat e else 1 / 10 ^ nat (- e))"

text \<open>
  For a positive rational \<open>a = p / d\<close>, the integer \<open>e\<close> with \<open>2^e \<le> a < 2^(e+1)\<close>: it
  is the difference of the bit lengths of \<open>p\<close> and \<open>d\<close>, or one less.
\<close>

definition floor_log2 :: "rat \<Rightarrow> int" where
  "floor_log2 a =
     (let c = bitlen (fst (quotient_of a)) - bitlen (snd (quotient_of a))
      in if pow2 c \<le> a then c else c - 1)"

definition round_half_even :: "rat \<Rightarrow> int" where
  "round_half_even r =
     (let f = \<lfloor>r\<rfloor>; d = r - of_int f
      in if d < 1 / 2 then f else if 1 / 2 < d then f + 1 else if even f then f else f + 1)"

text \<open>
  Rounding to the nearest double. A double has 53 significant bits and a least exponent of
  \<open>-1022\<close>, so the spacing of the doubles around \<open>a\<close> is \<open>2^(max e (-1022) - 52)\<close>; the
  value is rounded to a multiple of it, and is an infinity from \<open>2^1024\<close> on.
\<close>

definition to_double :: "rat \<Rightarrow> jsnum" where
  "to_double q =
     (if q = 0 then Fin 0
      else
        let a = \<bar>q\<bar>;
            e = max (floor_log2 a) (- 1022);
            ulp = pow2 (e - 52);
            v = of_int (round_half_even (a / ulp)) * ulp
        in if pow2 1024 \<le> v then (if 0 < q then PosInf else NegInf)
           else Fin (if 0 < q then v else - v))"

fun js_neg :: "jsnum \<Rightarrow> jsnum" where
  "js_neg NaN = NaN"
| "js_neg PosInf = NegInf"
| "js_neg NegInf = PosInf"
| "js_neg (Fin q) = Fin (- q)"

fun js_add :: "jsnum \<Rightarrow> jsnum \<Rightarrow> jsnum" where
  "js_add NaN _ = NaN"
| "js_add _ NaN = NaN"
| "js_add PosInf NegInf = NaN"
| "js_add NegInf PosInf = NaN"
| "js_add PosInf _ = PosInf"
| "js_add _ PosInf = PosInf"
| "js_add NegInf _ = NegInf"
| "js_add _ NegInf = NegInf"
| "js_add (Fin a) (Fin b) = to_double (a + b)"

definition js_sub :: "jsnum \<Rightarrow> jsnum \<Rightarrow> jsnum" where
  "js_sub a b = js_add a (js_neg b)"

fun js_sign :: "jsnum \<Rightarrow> int" where
  "js_sign NaN = 0"
| "js_sign PosInf = 1"
| "js_sign NegInf = - 1"
| "js_sign (Fin q) = (if q < 0 then - 1 else if q = 0 then 0 else 1)"

fun js_mul :: "jsnum \<Rightarrow> jsnum \<Rightarrow> jsnum" where
  "js_mul NaN _ = NaN"
| "js_mul _ NaN = NaN"
| "js_mul (Fin a) (Fin b) = to_double (a * b)"
| "js_mul a b =
     (let s = js_sign a * js_sign b
      in if s = 0 then NaN else if 0 < s then PosInf else NegInf)"

text \<open>The relational operator \<open>a < b\<close>; any comparison with NaN is false.\<close>

fun js_less :: "jsnum \<Rightarrow> jsnum \<Rightarrow> bool" where
  "js_less NaN _ = False"
| "js_less _ NaN = False"
| "js_less (Fin a) (Fin b) = (a < b)"
| "js_less NegInf b = (b \<noteq> NegInf)"
| "js_less a PosInf = (a \<noteq> PosInf)"
| "js_less _ _ = False"

definition js_isNaN :: "jsnum \<Rightarrow> bool" where
  "js_isNaN n = (n = NaN)"

definition js_of_nat :: "nat \<Rightarrow> jsnum" where
  "js_of_nat n = Fin (of_nat n)"

subsection \<open>Array.prototype.slice\<close>

definition trunc_rat :: "rat \<Rightarrow> int" where
  "trunc_rat q = (if 0 \<le> q then \<lfloor>q\<rfloor> else \<lceil>q\<rceil>)"

text \<open>
  The relative index computation of \<open>slice\<close>: the argument goes through
  ToIntegerOrInfinity (NaN becomes 0, a fraction is truncated), a negative index counts
  from the end, and the result is clamped to \<open>0..len\<close>.
\<close>

fun slice_index :: "nat \<Rightarrow> jsnum \<Rightarrow> nat" where
  "slice_index len NaN = 0"
| "slice_index len NegInf = 0"
| "slice_index len PosInf = len"
| "slice_index len (Fin q) =
     (let k = trunc_rat q
      in if k < 0 then nat (max (int len + k) 0) else nat (min k (int len)))"

definition js_slice :: "'a list \<Rightarrow> jsnum \<Rightarrow> jsnum \<Rightarrow> 'a list" where
  "js_slice xs a b =
     (let k = slice_index (length xs) a; f = slice_index (length xs) b
      in take (f - k) (drop k xs))"

subsection \<open>Number to string\<close>

definition digit_char :: "nat \<Rightarrow> char" where
  "digit_char d = char_of (48 + d)"

fun digits_of :: "nat \<Rightarrow> string" where
  "digits_of n = (if n < 10 then [digit_char n] else digits_of (n div 10) @ [digit_char (n mod 10)])"

declare digits_of.simps [simp del]

text \<open>
  \<open>Number.prototype.toString\<close>, as the template literal \<open>`${page}`\<close> applies it
  (ECMAScript, Number::toString with radix 10). For a positive value \<open>x\<close> it takes the
  least number \<open>k\<close> of digits for which there are an integer \<open>s\<close> of \<open>k\<close> digits and an
  exponent \<open>n\<close> such that \<open>s * 10^(n - k)\<close> rounds to \<open>x\<close>, and of such \<open>s\<close> the one closest
  to \<open>x\<close>; it then prints the digits of \<open>s\<close> in positional notation for
  \<open>-6 < n \<le> 21\<close> and in exponent notation otherwise.
\<close>

text \<open>The \<open>n\<close> with \<open>10^(n - 1) \<le> x < 10^n\<close>, for a positive double \<open>x\<close>.\<close>

definition decimal_exponent :: "rat \<Rightarrow> int" where
  "decimal_exponent x =
     (case List.find (\<lambda>n. x < pow10 n) [- 330 .. 310] of Some n \<Rightarrow> n | None \<Rightarrow> 310)"

text \<open>
  The digits \<open>s\<close> and the exponent \<open>n\<close> for \<open>k\<close> digits, if \<open>k\<close> digits can give \<open>x\<close>:
  the two \<open>k\<close>-digit neighbours of \<open>x\<close> are tried, and the closer one is taken when both
  round to \<open>x\<close>.
\<close>

definition digits_candidate :: "rat \<Rightarrow> int \<Rightarrow> nat \<Rightarrow> (nat \<times> int) option" where
  "digits_candidate x n0 k =
     (let scale = pow10 (n0 - int k);
          lo = nat \<lfloor>x / scale\<rfloor>;
          hi = lo + 1;
          ok = (\<lambda>s. to_double (of_nat s * scale) = Fin x);
          dlo = \<bar>of_nat lo * scale - x\<bar>;
          dhi = \<bar>of_nat hi * scale - x\<bar>;
          s = (if ok lo \<and> ok hi
               then (if dlo < dhi \<or> (dlo = dhi \<and> even lo) then Some lo else Some hi)
               else if ok lo then Some lo else if ok hi then Some hi else None)
      in case s of
           None \<Rightarrow> None
         | Some s \<Rightarrow> if s = 10 ^ k then Some (10 ^ (k - 1), n0 + 1) else Some (s, n0))"

definition shortest_digits :: "rat \<Rightarrow> nat \<times> int" where
  "shortest_digits x =
     (let n0 = decimal_exponent x
      in case List.map_filter (digits_candidate x n0) [1 ..< 18] of
           c # _ \<Rightarrow> c
         | [] \<Rightarrow> (0, 0))"

definition format_digits :: "string \<Rightarrow> int \<Rightarrow> string" where
  "format_digits ds n =
     (let k = int (length ds)
      in if k \<le> n \<and> n \<le> 21 then ds @ replicate (nat (n - k)) (CHR ''0'')
         else if 0 < n \<and> n \<le> 21 then take (nat n) ds @ ''.'' @ drop (nat n) ds
         else if - 6 < n \<and> n \<le> 0 then ''0.'' @ replicate (nat (- n)) (CHR ''0'') @ ds
         else
           let e = n - 1;
               es = (if e < 0 then ''-'' else ''+'') @ digits_of (nat \<bar>e\<bar>)
           in if k = 1 then ds @ ''e'' @ es
              else take 1 ds @ ''.'' @ drop 1 ds @ ''e'' @ es)"

text \<open>
  An integer below \<open>2^53\<close> is printed with all its digits: no shorter decimal rounds to
  it. Any other value goes through the search for the shortest digits.
\<close>

definition unsigned_toString :: "rat \<Rightarrow> string" where
  "unsigned_toString x =
     (if x = of_int \<lfloor>x\<rfloor> \<and> x < 2 ^ 53 then digits_of (nat \<lfloor>x\<rfloor>)
      else case shortest_digits x of (s, n) \<Rightarrow> format_digits (digits_of s) n)"

fun js_toString :: "jsnum \<Rightarrow> string" where
  "js_toString NaN = ''NaN''"
| "js_toString PosInf = ''Infinity''"
| "js_toString NegInf = ''-Infinity''"
| "js_toString (Fin q) = (if q < 0 then ''-'' @ unsigned_toString (- q) else unsigned_toString q)"

subsection \<open>String to number\<close>

text \<open>
  A JavaScript string is kept as its list of code points. The white space that
  \<open>Number(string)\<close> strips on both sides is WhiteSpace and LineTerminator of ECMAScript.
\<close>

definition is_js_space :: "nat \<Rightarrow> bool" where
  "is_js_space c =
     (c \<in> {9, 10, 11, 12, 13, 32, 160, 5760, 8232, 8233, 8239, 8287, 12288, 65279}
      \<or> (8192 \<le> c \<and> c \<le> 8202))"

definition js_trim :: "nat list \<Rightarrow> nat list" where
  "js_trim cs = rev (dropWhile is_js_space (rev (dropWhile is_js_space cs)))"

definition is_digit :: "char \<Rightarrow> bool" where
  "is_digit c = (48 \<le> (of_char c :: nat) \<and> (of_char c :: nat) \<le> 57)"

definition digit_val :: "char \<Rightarrow> nat" where
  "digit_val c = of_char c - 48"

definition dec_value :: "string \<Rightarrow> nat" where
  "dec_value s = foldl (\<lambda>a c. 10 * a + digit_val c) 0 s"

text \<open>The value of one digit in a radix up to 16; \<open>None\<close> when it is no such digit.\<close>

definition radix_digit :: "nat \<Rightarrow> char \<Rightarrow> nat option" where
  "radix_digit b c =
     (let n = (of_char c :: nat);
          v = (if 48 \<le> n \<and> n \<le> 57 then Some (n - 48)
               else if 97 \<le> n \<and> n \<le> 102 then Some (n - 87)
               else if 65 \<le> n \<and> n \<le> 70 then Some (n - 55)
               else None)
      in case v of None \<Rightarrow> None | Some d \<Rightarrow> if d < b then Some d else None)"

fun radix_value :: "nat \<Rightarrow> nat \<Rightarrow> string \<Rightarrow> nat option" where
  "radix_value b acc [] = Some acc"
| "radix_value b acc (c # cs) =
     (case radix_digit b c of None \<Rightarrow> None | Some d \<Rightarrow> radix_value b (b * acc + d) cs)"

text \<open>ExponentPart: nothing, or \<open>e\<close>/\<open>E\<close>, an optional sign and at least one digit.\<close>

definition parse_exponent :: "string \<Rightarrow> int option" where
  "parse_exponent s =
     (case s of
        [] \<Rightarrow> Some 0
      | c # t \<Rightarrow>
          if c = CHR ''e'' \<or> c = CHR ''E'' then
            (let (neg, ds) = (case t of
                                [] \<Rightarrow> (False, [])
                              | d # u \<Rightarrow> if d = CHR ''-'' then (True, u)
                                         else if d = CHR ''+'' then (False, u)
                                         else (False, t))
             in if ds \<noteq> [] \<and> list_all is_digit ds
                then Some (if neg then - int (dec_value ds) else int (dec_value ds))
                else None)
          else None)"

text \<open>
  StrUnsignedDecimalLiteral: \<open>Infinity\<close>, or digits with an optional fraction and an
  optional exponent, with at least one digit before or after the point.
\<close>

definition parse_unsigned_decimal :: "string \<Rightarrow> jsnum" where
  "parse_unsigned_decimal s =
     (if s = ''Infinity'' then PosInf
      else
        let ip = takeWhile is_digit s;
            r1 = dropWhile is_digit s;
            (fp, r2) = (case r1 of
                          [] \<Rightarrow> ([], [])
                        | c # t \<Rightarrow> if c = CHR ''.'' then (takeWhile is_digit t, dropWhile is_digit t)
                                   else ([], r1))
        in if ip = [] \<and> fp = [] then NaN
           else case parse_exponent r2 of
                  None \<Rightarrow> NaN
                | Some e \<Rightarrow>
                    to_double (of_nat (dec_value (ip @ fp)) * pow10 (e - int (length fp))))"

definition parse_non_decimal :: "string \<Rightarrow> jsnum option" where
  "parse_non_decimal s =
     (case s of
        z # x # ds \<Rightarrow>
          if z = CHR ''0'' \<and> x \<in> set ''xXoObB'' then
            (let b = (if x \<in> set ''xX'' then 16 else if x \<in> set ''oO'' then 8 else 2)
             in Some (if ds = [] then NaN
                      else case radix_value b 0 ds of
                             None \<Rightarrow> NaN
                           | Some v \<Rightarrow> to_double (of_nat v)))
          else None
      | _ \<Rightarrow> None)"

definition parse_numeric_literal :: "string \<Rightarrow> jsnum" where
  "parse_numeric_literal s =
     (case parse_non_decimal s of
        Some n \<Rightarrow> n
      | None \<Rightarrow>
          (case s of
             [] \<Rightarrow> NaN
           | c # t \<Rightarrow> if c = CHR ''-'' then js_neg (parse_unsigned_decimal t)
                      else if c = CHR ''+'' then parse_unsigned_decimal t
                      else parse_unsigned_decimal s))"

text \<open>
  \<open>Number(string)\<close>: white space is stripped, the empty string is 0, a string that is
  not a numeric literal (in particular one with a character beyond ASCII) is NaN.
\<close>

definition js_Number :: "nat list \<Rightarrow> jsnum" where
  "js_Number cs =
     (let t = js_trim cs
      in if t = [] then Fin 0
         else if list_all (\<lambda>c. c < 128) t then parse_numeric_literal (map char_of t)
         else NaN)"

subsection \<open>Buffer: base64 and UTF-8\<close>

definition b64_char :: "nat \<Rightarrow> char" where
  "b64_char n =
     (if n < 26 then char_of (65 + n)
      else if n < 52 then char_of (71 + n)
      else if n < 62 then char_of (n - 4)
      else if n = 62 then CHR ''+''
      else CHR ''/'')"

text \<open>\<open>Buffer.toString('base64')\<close>: the standard alphabet, padded with \<open>=\<close>.\<close>

fun base64_encode :: "nat list \<Rightarrow> string" where
  "base64_encode [] = []"
| "base64_encode [a] = [b64_char (a div 4), b64_char ((a mod 4) * 16), CHR ''='', CHR ''='']"
| "base64_encode [a, b] =
     [b64_char (a div 4), b64_char ((a mod 4) * 16 + b div 16), b64_char ((b mod 16) * 4),
      CHR ''='']"
| "base64_encode (a # b # c # rest) =
     [b64_char (a div 4), b64_char ((a mod 4) * 16 + b div 16),
      b64_char ((b mod 16) * 4 + c div 64), b64_char (c mod 64)] @ base64_encode rest"

text \<open>
  The decoder of \<open>Buffer.from(s, 'base64')\<close> is lenient: it also accepts the URL-safe
  alphabet, skips every character that is not in either alphabet, needs no padding, and
  stops at the first \<open>=\<close>.
\<close>

definition unbase64 :: "char \<Rightarrow> nat option" where
  "unbase64 c =
     (let n = (of_char c :: nat)
      in if 65 \<le> n \<and> n \<le> 90 then Some (n - 65)
         else if 97 \<le> n \<and> n \<le> 122 then Some (n - 71)
         else if 48 \<le> n \<and> n \<le> 57 then Some (n + 4)
         else if c = CHR ''+'' \<or> c = CHR ''-'' then Some 62
         else if c = CHR ''/'' \<or> c = CHR ''_'' then Some 63
         else None)"

fun sextets_to_bytes :: "nat list \<Rightarrow> nat list" where
  "sextets_to_bytes (a # b # c # d # rest) =
     [a * 4 + b div 16, (b mod 16) * 16 + c div 4, (c mod 4) * 64 + d] @ sextets_to_bytes rest"
| "sextets_to_bytes [a, b, c] = [a * 4 + b div 16, (b mod 16) * 16 + c div 4]"
| "sextets_to_bytes [a, b] = [a * 4 + b div 16]"
| "sextets_to_bytes _ = []"

definition sextets :: "string \<Rightarrow> nat list" where
  "sextets s = List.map_filter unbase64 (takeWhile (\<lambda>c. c \<noteq> CHR ''='') s)"

definition base64_decode :: "string \<Rightarrow> nat list" where
  "base64_decode s = sextets_to_bytes (sextets s)"

definition is_cont :: "nat \<Rightarrow> bool" where
  "is_cont b = (128 \<le> b \<and> b < 192)"

text \<open>
  \<open>Buffer.toString('utf-8')\<close>: well-formed sequences become their code point, anything
  else becomes U+FFFD. (One replacement character is produced per offending byte; the
  platform may merge some of them, which \<open>Number\<close> cannot tell apart: either way the
  string is not numeric.)
\<close>

fun utf8_decode :: "nat list \<Rightarrow> nat list" where
  "utf8_decode [] = []"
| "utf8_decode (a # bs) =
     (if a < 128 then a # utf8_decode bs
      else case bs of
        b # bs1 \<Rightarrow>
          if 194 \<le> a \<and> a \<le> 223 \<and> is_cont b
          then ((a - 192) * 64 + (b - 128)) # utf8_decode bs1
          else (case bs1 of
            c # bs2 \<Rightarrow>
              if 224 \<le> a \<and> a \<le> 239 \<and> is_cont b \<and> is_cont c
                 \<and> (a = 224 \<longrightarrow> 160 \<le> b) \<and> (a = 237 \<longrightarrow> b < 160)
              then ((a - 224) * 4096 + (b - 128) * 64 + (c - 128)) # utf8_decode bs2
              else (case bs2 of
                d # bs3 \<Rightarrow>
                  if 240 \<le> a \<and> a \<le> 244 \<and> is_cont b \<and> is_cont c \<and> is_cont d
                     \<and> (a = 240 \<longrightarrow> 144 \<le> b) \<and> (a = 244 \<longrightarrow> b < 144)
                  then ((a - 240) * 262144 + (b - 128) * 4096 + (c - 128) * 64 + (d - 128))
                       # utf8_decode bs3
                  else 65533 # utf8_decode bs
              | [] \<Rightarrow> 65533 # utf8_decode bs)
          | [] \<Rightarrow> 65533 # utf8_decode bs)
      | [] \<Rightarrow> [65533])"

text \<open>
  \<open>Buffer.from(s, 'utf-8')\<close> for the strings that \<open>js_toString\<close> produces, which are
  ASCII: one byte per character.
\<close>

definition utf8_encode_ascii :: "string \<Rightarrow> nat list" where
  "utf8_encode_ascii s = map of_char s"

section \<open>The page cursor codec\<close>

text \<open>
  What a promise of this code can reject with: the codec's own \<open>Error('Invalid cursor')\<close>,
  whatever a collaborator throws or rejects with, and the TypeError with which DataLoader
  rejects a batch whose answer has not the length of its keys.
\<close>

datatype error = InvalidCursor | Thrown string | BatchShapeError

text \<open>
  \<open>decodePageCursor\<close>: \<open>!pageCursor\<close> holds for \<open>undefined\<close> and for the empty string.
  The object \<open>{ page }\<close> that it returns is kept as its one field. The cursor is a string
  of 8-bit characters; any other character is outside the base64 alphabets and would be
  skipped by the decoder like the rest of them.
\<close>

definition decodePageCursor :: "string option \<Rightarrow> error + jsnum" where
  "decodePageCursor pageCursor =
     (case pageCursor of
        None \<Rightarrow> Inr (Fin 0)
      | Some c \<Rightarrow>
          if c = [] then Inr (Fin 0)
          else
            let page = js_Number (utf8_decode (base64_decode c))
            in if js_isNaN page then Inl InvalidCursor
               else if js_less page (Fin 0) then Inl InvalidCursor
               else Inr page)"

definition encodePageCursor :: "jsnum \<Rightarrow> string" where
  "encodePageCursor page = base64_encode (utf8_encode_ascii (js_toString page))"

section \<open>Data model of the authorized search engine\<close>

datatype permission = Permission string

datatype authorize_result = DENY | ALLOW | CONDITIONAL

record authorize_query =
  permission :: permission
  resourceRef :: "string option"

text \<open>Of a decision only \<open>result\<close> is ever read; the conditions of a conditional one are not.\<close>

record authorize_decision =
  result :: authorize_result

record document_type_info =
  visibilityPermission :: "permission option"

text \<open>
  The document's \<open>authorization\<close> object has the single field \<open>resourceRef\<close>; the field
  \<open>authorization\<close> below is that reference when the object is present.
\<close>

record indexable_document =
  title :: string
  body_text :: string
  location :: string
  authorization :: "string option"

record search_result =
  type :: string
  document :: indexable_document

record search_result_set =
  results :: "search_result list"
  nextPageCursor :: "string option"
  previousPageCursor :: "string option"

record search_query =
  query_term :: string
  filters :: "string option"
  types :: "string list option"
  pageCursor :: "string option"

record query_request_options =
  token :: "string option"

record authorized_search_engine_config =
  queryLatencyBudgetMs :: int
  pageSize :: nat

text \<open>
  The constructor's configuration: \<open>{ queryLatencyBudgetMs: 1000, pageSize: 25, ...config }\<close>
  for a partial \<open>config\<close>.
\<close>

definition make_config :: "int option \<Rightarrow> nat option \<Rightarrow> authorized_search_engine_config" where
  "make_config budget n =
     \<lparr>queryLatencyBudgetMs = (case budget of None \<Rightarrow> 1000 | Some b \<Rightarrow> b),
      pageSize = (case n of None \<Rightarrow> 25 | Some k \<Rightarrow> k)\<rparr>"

text \<open>
  The construction-time \<open>types\<close> object, as the list of its entries in the order of
  \<open>Object.keys\<close>.
\<close>

type_synonym type_registry = "(string \<times> document_type_info) list"

text \<open>
  The injected collaborators and the clock, over a state \<open>'w\<close> of the outside world that
  every call may change: the wrapped engine's \<open>query\<close>, the permission service's
  \<open>authorize\<close>, and \<open>Date.now()\<close>.
\<close>

record 'w collaborators =
  engine_query :: "search_query \<Rightarrow> query_request_options \<Rightarrow> 'w
                     \<Rightarrow> (error + search_result_set) \<times> 'w"
  authorize :: "authorize_query list \<Rightarrow> query_request_options \<Rightarrow> 'w
                  \<Rightarrow> (error + authorize_decision list) \<times> 'w"
  date_now :: "'w \<Rightarrow> int"

text \<open>The outside world together with the log of the calls made to the collaborators.\<close>

record 'w world =
  ext :: 'w
  engine_calls :: "search_query list"
  authorize_calls :: "authorize_query list list"

section \<open>The DataLoader in front of the permission service\<close>

text \<open>
  \<open>new DataLoader(batchFn)\<close> comes from the \<open>dataloader\<close> package, which the repository
  imports and does not contain; what follows is the behaviour of its \<open>load\<close> that the
  code relies on: the loads of one tick are collected into one batch, a key whose cache key
  is already in the loader's cache map is not added to the batch, the batch function is
  called once with the keys of the batch, and each load resolves to the value at the
  position of its key.

  A key handed to \<open>authorizer.load\<close> is an object literal built at the call site: a fresh
  object each time, here its identity together with its fields.
\<close>

type_synonym key_object = "nat \<times> authorize_query"

text \<open>
  The loader is built without options, so its cache key function is the default one, the
  identity: the cache, a \<open>Map\<close>, is keyed by the key object itself.
\<close>

definition cacheKeyFn :: "key_object \<Rightarrow> key_object" where
  "cacheKeyFn k = k"

record authorizer_state =
  next_object :: nat
  cacheMap :: "(key_object \<times> authorize_decision) list"

definition new_DataLoader :: authorizer_state where
  "new_DataLoader = \<lparr>next_object = 0, cacheMap = []\<rparr>"

text \<open>
  The keys of one batch: of the keys loaded in the same tick, those whose cache key is
  neither cached already nor queued before.
\<close>

fun collect_batch :: "('k \<Rightarrow> 'c) \<Rightarrow> 'c list \<Rightarrow> 'k list \<Rightarrow> 'k list" where
  "collect_batch f seen [] = []"
| "collect_batch f seen (k # ks) =
     (if f k \<in> set seen then collect_batch f seen ks
      else k # collect_batch f (f k # seen) ks)"

text \<open>
  The batch function, \<open>this.permissions.authorize(requests.slice(), options)\<close>. It is
  called only for a batch that has keys, and its answer must have one value per key.
\<close>

definition dispatch_batch ::
  "'w collaborators \<Rightarrow> query_request_options \<Rightarrow> key_object list \<Rightarrow> 'w world
     \<Rightarrow> (error + authorize_decision list) \<times> 'w world" where
  "dispatch_batch C opts batch W =
     (if batch = [] then (Inr [], W)
      else
        let requests = map snd batch;
            (r, e) = authorize C requests opts (ext W);
            W' = W\<lparr>ext := e, authorize_calls := authorize_calls W @ [requests]\<rparr>
        in case r of
             Inl err \<Rightarrow> (Inl err, W')
           | Inr ds \<Rightarrow> if length ds = length requests then (Inr ds, W')
                       else (Inl BatchShapeError, W'))"

text \<open>
  All the \<open>load\<close> calls of one tick, and the dispatch of their batch: every call allocates
  its key object, the keys that miss the cache form the batch, and every load resolves to
  the value the cache holds for its key afterwards. (Every key is then in the cache, so the
  branch for a missing one is never taken.)
\<close>

definition load_many ::
  "'w collaborators \<Rightarrow> query_request_options \<Rightarrow> authorize_query list
     \<Rightarrow> authorizer_state \<times> 'w world
     \<Rightarrow> (error + authorize_decision list) \<times> authorizer_state \<times> 'w world" where
  "load_many C opts qs S =
     (let A = fst S; W = snd S;
          n = next_object A;
          keys = zip [n ..< n + length qs] qs;
          batch = collect_batch cacheKeyFn (map fst (cacheMap A)) keys;
          A1 = A\<lparr>next_object := n + length qs\<rparr>
      in case dispatch_batch C opts batch W of
           (Inl err, W') \<Rightarrow> (Inl err, A1, W')
         | (Inr ds, W') \<Rightarrow>
             let cm = cacheMap A @ zip (map cacheKeyFn batch) ds
             in case those (map (\<lambda>k. map_of cm (cacheKeyFn k)) keys) of
                  None \<Rightarrow> (Inl BatchShapeError, A1\<lparr>cacheMap := cm\<rparr>, W')
                | Some vs \<Rightarrow> (Inr vs, A1\<lparr>cacheMap := cm\<rparr>, W'))"

text \<open>
  One element of an array given to \<open>Promise.all\<close>: a plain value, or the promise of a
  \<open>load\<close> with the function applied to its decision (\<open>.then\<close>). \<open>settle\<close> puts the
  decisions of the loads in their places; \<open>load_many\<close> gives one decision per load
  (\<open>load_many_length\<close>), so its last equation is never reached.
\<close>

datatype 'a pending = Value 'a | Load authorize_query "authorize_decision \<Rightarrow> 'a"

fun requests_of :: "'a pending list \<Rightarrow> authorize_query list" where
  "requests_of [] = []"
| "requests_of (Value v # ps) = requests_of ps"
| "requests_of (Load q k # ps) = q # requests_of ps"

fun settle :: "'a pending list \<Rightarrow> authorize_decision list \<Rightarrow> 'a list" where
  "settle [] ds = []"
| "settle (Value v # ps) ds = v # settle ps ds"
| "settle (Load q k # ps) (d # ds) = k d # settle ps ds"
| "settle (Load q k # ps) [] = settle ps []"

definition await_all ::
  "'w collaborators \<Rightarrow> query_request_options \<Rightarrow> 'a pending list
     \<Rightarrow> authorizer_state \<times> 'w world \<Rightarrow> (error + 'a list) \<times> authorizer_state \<times> 'w world" where
  "await_all C opts ps S =
     (case load_many C opts (requests_of ps) S of
        (Inl err, S') \<Rightarrow> (Inl err, S')
      | (Inr ds, S') \<Rightarrow> (Inr (settle ps ds), S'))"

section \<open>The authorized search engine\<close>

text \<open>\<open>this.types[type]?.visibilityPermission\<close>\<close>

definition visibility_of :: "type_registry \<Rightarrow> string \<Rightarrow> permission option" where
  "visibility_of tys t =
     (case map_of tys t of None \<Rightarrow> None | Some info \<Rightarrow> visibilityPermission info)"

text \<open>\<open>typeDecisions[type]?.result\<close>\<close>

definition decision_result ::
  "(string \<rightharpoonup> authorize_decision) \<Rightarrow> string \<Rightarrow> authorize_result option" where
  "decision_result typeDecisions t = map_option result (typeDecisions t)"

text \<open>lodash's \<open>zipObject\<close>: a later entry for the same key replaces an earlier one.\<close>

definition zipObject :: "'k list \<Rightarrow> 'v list \<Rightarrow> ('k \<rightharpoonup> 'v)" where
  "zipObject ks vs = map_of (rev (zip ks vs))"

text \<open>lodash's \<open>compact\<close> on an array of results and \<open>undefined\<close>.\<close>

definition compact :: "'a option list \<Rightarrow> 'a list" where
  "compact xs = List.map_filter id xs"

text \<open>Truthiness of a \<open>string | undefined\<close>: the empty string is falsy.\<close>

definition truthy :: "string option \<Rightarrow> bool" where
  "truthy c = (case c of None \<Rightarrow> False | Some s \<Rightarrow> s \<noteq> [])"

subsection \<open>The type-level gate\<close>

definition gate_pending :: "type_registry \<Rightarrow> string \<Rightarrow> authorize_decision pending" where
  "gate_pending tys t =
     (case visibility_of tys t of
        Some p \<Rightarrow> Load \<lparr>permission = p, resourceRef = None\<rparr> (\<lambda>d. d)
      | None \<Rightarrow> Value \<lparr>result = ALLOW\<rparr>)"

definition requested_types :: "type_registry \<Rightarrow> search_query \<Rightarrow> string list" where
  "requested_types tys q = (case types q of Some ts \<Rightarrow> ts | None \<Rightarrow> map fst tys)"

definition type_gate ::
  "'w collaborators \<Rightarrow> type_registry \<Rightarrow> query_request_options \<Rightarrow> string list
     \<Rightarrow> authorizer_state \<times> 'w world
     \<Rightarrow> (error + (string \<rightharpoonup> authorize_decision)) \<times> authorizer_state \<times> 'w world" where
  "type_gate C tys opts requestedTypes S =
     (case await_all C opts (map (gate_pending tys) requestedTypes) S of
        (Inl err, S') \<Rightarrow> (Inl err, S')
      | (Inr ds, S') \<Rightarrow> (Inr (zipObject requestedTypes ds), S'))"

definition authorized_types ::
  "(string \<rightharpoonup> authorize_decision) \<Rightarrow> string list \<Rightarrow> string list" where
  "authorized_types typeDecisions requestedTypes =
     filter (\<lambda>t. decision_result typeDecisions t \<noteq> Some DENY) requestedTypes"

subsection \<open>filterResults\<close>

definition filter_pending ::
  "type_registry \<Rightarrow> (string \<rightharpoonup> authorize_decision) \<Rightarrow> search_result
     \<Rightarrow> search_result option pending" where
  "filter_pending tys typeDecisions r =
     (if decision_result typeDecisions (type r) = Some ALLOW then Value (Some r)
      else
        case visibility_of tys (type r) of
          None \<Rightarrow> Value (Some r)
        | Some p \<Rightarrow>
            if \<not> truthy (authorization (document r)) then Value (Some r)
            else Load \<lparr>permission = p, resourceRef = authorization (document r)\<rparr>
                   (\<lambda>decision. if result decision = ALLOW then Some r else None))"

definition filterResults ::
  "'w collaborators \<Rightarrow> type_registry \<Rightarrow> query_request_options \<Rightarrow> search_result list
     \<Rightarrow> (string \<rightharpoonup> authorize_decision) \<Rightarrow> authorizer_state \<times> 'w world
     \<Rightarrow> (error + search_result list) \<times> authorizer_state \<times> 'w world" where
  "filterResults C tys opts rs typeDecisions S =
     (case await_all C opts (map (filter_pending tys typeDecisions) rs) S of
        (Inl err, S') \<Rightarrow> (Inl err, S')
      | (Inr xs, S') \<Rightarrow> (Inr (compact xs), S'))"

subsection \<open>The backfill loop of query\<close>

text \<open>
  One call of \<open>this.searchEngine.query\<close> with the query's \<open>types\<close> and \<open>pageCursor\<close>
  replaced.
\<close>

definition call_engine ::
  "'w collaborators \<Rightarrow> query_request_options \<Rightarrow> search_query \<Rightarrow> string list
     \<Rightarrow> string option \<Rightarrow> authorizer_state \<times> 'w world
     \<Rightarrow> (error + search_result_set) \<times> authorizer_state \<times> 'w world" where
  "call_engine C opts q authorizedTypes cursor S =
     (let W = snd S;
          q' = q\<lparr>types := Some authorizedTypes, pageCursor := cursor\<rparr>;
          (r, e) = engine_query C q' opts (ext W)
      in (r, fst S, W\<lparr>ext := e, engine_calls := engine_calls W @ [q']\<rparr>))"

text \<open>
  The values the loop leaves behind: \<open>filteredResults\<close>, \<open>nextPageCursor\<close> and
  \<open>latencyBudgetExhausted\<close>.
\<close>

type_synonym loop_result = "search_result list \<times> string option \<times> bool"

text \<open>
  The \<open>do ... while\<close> loop. Nothing bounds the number of its iterations, so the model
  takes fuel: \<open>None\<close> means that the loop has not ended within that many iterations.
\<close>

fun backfill ::
  "nat \<Rightarrow> 'w collaborators \<Rightarrow> type_registry \<Rightarrow> authorized_search_engine_config
     \<Rightarrow> query_request_options \<Rightarrow> search_query \<Rightarrow> (string \<rightharpoonup> authorize_decision)
     \<Rightarrow> string list \<Rightarrow> int \<Rightarrow> jsnum \<Rightarrow> search_result list \<Rightarrow> string option
     \<Rightarrow> authorizer_state \<times> 'w world
     \<Rightarrow> ((error + loop_result) \<times> authorizer_state \<times> 'w world) option" where
  "backfill 0 C tys cfg opts q typeDecisions authorizedTypes queryStartTime targetResults
     filteredResults cursor S = None"
| "backfill (Suc fuel) C tys cfg opts q typeDecisions authorizedTypes queryStartTime targetResults
     filteredResults cursor S =
     (case call_engine C opts q authorizedTypes cursor S of
        (Inl err, S1) \<Rightarrow> Some (Inl err, S1)
      | (Inr nextPage, S1) \<Rightarrow>
          (case filterResults C tys opts (results nextPage) typeDecisions S1 of
             (Inl err, S2) \<Rightarrow> Some (Inl err, S2)
           | (Inr kept, S2) \<Rightarrow>
               let filteredResults' = filteredResults @ kept;
                   cursor' = nextPageCursor nextPage;
                   latencyBudgetExhausted =
                     (date_now C (ext (snd S2)) - queryStartTime > queryLatencyBudgetMs cfg)
               in if truthy cursor'
                     \<and> js_less (js_of_nat (length filteredResults')) targetResults
                     \<and> \<not> latencyBudgetExhausted
                  then backfill fuel C tys cfg opts q typeDecisions authorizedTypes
                         queryStartTime targetResults filteredResults' cursor' S2
                  else Some (Inr (filteredResults', cursor', latencyBudgetExhausted), S2)))"

definition target_results :: "authorized_search_engine_config \<Rightarrow> jsnum \<Rightarrow> jsnum" where
  "target_results cfg page = js_mul (js_add page (Fin 1)) (js_of_nat (pageSize cfg))"

text \<open>The result set built after the loop.\<close>

definition finalize ::
  "authorized_search_engine_config \<Rightarrow> jsnum \<Rightarrow> loop_result \<Rightarrow> search_result_set" where
  "finalize cfg page lr =
     (case lr of (filteredResults, cursor, latencyBudgetExhausted) \<Rightarrow>
        \<lparr>results = js_slice filteredResults
                     (js_mul page (js_of_nat (pageSize cfg)))
                     (js_mul (js_add page (Fin 1)) (js_of_nat (pageSize cfg))),
         nextPageCursor =
           (if \<not> latencyBudgetExhausted
               \<and> (truthy cursor
                    \<or> js_less (target_results cfg page) (js_of_nat (length filteredResults)))
            then Some (encodePageCursor (js_add page (Fin 1)))
            else None),
         previousPageCursor =
           (if page = Fin 0 then None else Some (encodePageCursor (js_sub page (Fin 1))))\<rparr>)"

text \<open>
  \<open>query\<close>. The loader is made anew for each query and dropped at its end; what remains
  is the outside world with the calls logged.
\<close>

definition query ::
  "nat \<Rightarrow> 'w collaborators \<Rightarrow> type_registry \<Rightarrow> authorized_search_engine_config
     \<Rightarrow> search_query \<Rightarrow> query_request_options \<Rightarrow> 'w world
     \<Rightarrow> ((error + search_result_set) \<times> 'w world) option" where
  "query fuel C tys cfg q opts W =
     (let queryStartTime = date_now C (ext W);
          requestedTypes = requested_types tys q
      in case type_gate C tys opts requestedTypes (new_DataLoader, W) of
           (Inl err, S1) \<Rightarrow> Some (Inl err, snd S1)
         | (Inr typeDecisions, S1) \<Rightarrow>
             let authorizedTypes = authorized_types typeDecisions requestedTypes
             in case decodePageCursor (pageCursor q) of
                  Inl err \<Rightarrow> Some (Inl err, snd S1)
                | Inr page \<Rightarrow>
                    (case backfill fuel C tys cfg opts q typeDecisions authorizedTypes
                            queryStartTime (target_results cfg page) [] None S1 of
                       None \<Rightarrow> None
                     | Some (Inl err, S2) \<Rightarrow> Some (Inl err, snd S2)
                     | Some (Inr lr, S2) \<Rightarrow> Some (Inr (finalize cfg page lr), snd S2)))"

subsection \<open>The pass-through operations\<close>

text \<open>
  How a call that answers with a promise can end: it throws before there is a promise, or
  its promise is fulfilled, or its promise is rejected.
\<close>

datatype call_outcome = Throws error | Fulfils | Rejects error

text \<open>The wrapped engine's \<open>index\<close> and \<open>setTranslator\<close>, over the outside world.\<close>

record ('w, 't) engine_ops =
  engine_index :: "string \<Rightarrow> indexable_document list \<Rightarrow> 'w \<Rightarrow> call_outcome \<times> 'w"
  engine_setTranslator :: "'t \<Rightarrow> 'w \<Rightarrow> 'w"

definition setTranslator :: "('w, 't) engine_ops \<Rightarrow> 't \<Rightarrow> 'w \<Rightarrow> 'w" where
  "setTranslator E translator w = engine_setTranslator E translator w"

text \<open>
  \<open>index\<close> is an \<open>async\<close> function whose body is the statement
  \<open>this.searchEngine.index(type, documents);\<close>: the engine's promise is neither awaited
  nor returned. The wrapper's promise is rejected when the call throws, and is fulfilled
  otherwise, whatever becomes of the engine's promise.
\<close>

definition index ::
  "('w, 't) engine_ops \<Rightarrow> string \<Rightarrow> indexable_document list \<Rightarrow> 'w \<Rightarrow> call_outcome \<times> 'w" where
  "index E ty documents w =
     (case engine_index E ty documents w of
        (Throws err, w') \<Rightarrow> (Rejects err, w')
      | (Fulfils, w') \<Rightarrow> (Fulfils, w')
      | (Rejects err, w') \<Rightarrow> (Fulfils, w'))"

section \<open>Predicates used to state the properties\<close>

text \<open>
  Every key in the loader's cache is an object allocated before: the next key object is
  none of them. It holds of \<open>new_DataLoader\<close> and every tick of loads keeps it.
\<close>

definition cache_fresh :: "authorizer_state \<Rightarrow> bool" where
  "cache_fresh A = (\<forall>k \<in> set (map fst (cacheMap A)). fst k < next_object A)"


text \<open>
  The rule of the result filter in the specification's words, for a permission service
  that answers each request by \<open>dec\<close>: a result of a type decided ALLOW is kept; otherwise
  it is kept when the type has no visibility permission or the document has no resource
  reference (none, or the empty one); otherwise it is kept exactly when the decision for
  its permission and resource reference is ALLOW.
\<close>

definition spec_keep ::
  "type_registry \<Rightarrow> (string \<rightharpoonup> authorize_decision) \<Rightarrow> (authorize_query \<Rightarrow> authorize_decision)
     \<Rightarrow> search_result \<Rightarrow> bool" where
  "spec_keep tys typeDecisions dec r =
     (decision_result typeDecisions (type r) = Some ALLOW
      \<or> (case visibility_of tys (type r) of
            None \<Rightarrow> True
          | Some p \<Rightarrow>
              (case authorization (document r) of
                 None \<Rightarrow> True
               | Some ref \<Rightarrow>
                   ref = [] \<or> result (dec \<lparr>permission = p, resourceRef = Some ref\<rparr>) = ALLOW)))"

text \<open>
  One exchange with the permission service for a list of requests, without a loader in
  between: no call for no requests, else one call with the requests in order.
\<close>

definition ask_permissions ::
  "'w collaborators \<Rightarrow> query_request_options \<Rightarrow> authorize_query list \<Rightarrow> 'w world
     \<Rightarrow> (error + authorize_decision list) \<times> 'w world" where
  "ask_permissions C opts requests W = dispatch_batch C opts (map (Pair 0) requests) W"

definition per_document_requests ::
  "type_registry \<Rightarrow> (string \<rightharpoonup> authorize_decision) \<Rightarrow> search_result list
     \<Rightarrow> authorize_query list" where
  "per_document_requests tys typeDecisions rs =
     requests_of (map (filter_pending tys typeDecisions) rs)"

definition gate_requests :: "type_registry \<Rightarrow> string list \<Rightarrow> authorize_query list" where
  "gate_requests tys requestedTypes = requests_of (map (gate_pending tys) requestedTypes)"

section \<open>A worked scenario\<close>

text \<open>
  Three registered types: the catalog has no visibility permission, TechDocs has one that
  the permission service answers conditionally, and a third type is denied outright; the
  engine also holds a document of a type that is not registered. Several
  TechDocs pages belong to the same component and carry the same resource reference. The
  engine serves two raw pages and returns results of the requested types only; the world is
  the clock, which an engine call advances by 10 ms and a call of the permission service
  by 5 ms.
\<close>

definition demo_types :: type_registry where
  "demo_types =
     [(''software-catalog'', \<lparr>visibilityPermission = None\<rparr>),
      (''techdocs'', \<lparr>visibilityPermission = Some (Permission ''techdocs.read'')\<rparr>),
      (''secrets'', \<lparr>visibilityPermission = Some (Permission ''secrets.read'')\<rparr>)]"

definition demo_dec :: "authorize_query \<Rightarrow> authorize_decision" where
  "demo_dec a =
     \<lparr>result =
        (if permission a = Permission ''secrets.read'' then DENY
         else case resourceRef a of
                None \<Rightarrow> CONDITIONAL
              | Some ref \<Rightarrow> if ref = ''component:a'' then ALLOW else DENY)\<rparr>"

definition demo_doc :: "string \<Rightarrow> string \<Rightarrow> string option \<Rightarrow> search_result" where
  "demo_doc ty name ref =
     \<lparr>type = ty,
      document = \<lparr>title = name, body_text = [], location = [], authorization = ref\<rparr>\<rparr>"

definition demo_req :: "string \<Rightarrow> string option \<Rightarrow> authorize_query" where
  "demo_req p ref = \<lparr>permission = Permission p, resourceRef = ref\<rparr>"

definition demo_page1 :: "search_result list" where
  "demo_page1 =
     [demo_doc ''software-catalog'' ''c1'' None,
      demo_doc ''techdocs'' ''t1'' (Some ''component:a''),
      demo_doc ''techdocs'' ''t2'' (Some ''component:b''),
      demo_doc ''secrets'' ''s1'' None,
      demo_doc ''adr'' ''a1'' None]"

definition demo_page2 :: "search_result list" where
  "demo_page2 =
     [demo_doc ''techdocs'' ''t3'' (Some ''component:a''),
      demo_doc ''software-catalog'' ''c2'' None]"

definition demo_engine ::
  "search_query \<Rightarrow> query_request_options \<Rightarrow> int \<Rightarrow> (error + search_result_set) \<times> int" where
  "demo_engine sq opts w =
     (Inr \<lparr>results =
             filter (\<lambda>r. case types sq of None \<Rightarrow> True | Some ts \<Rightarrow> type r \<in> set ts)
               (if pageCursor sq = None then demo_page1 else demo_page2),
           nextPageCursor = (if pageCursor sq = None then Some ''1'' else None),
           previousPageCursor = None\<rparr>,
      w + 10)"

definition demo_authorize ::
  "authorize_query list \<Rightarrow> query_request_options \<Rightarrow> int
     \<Rightarrow> (error + authorize_decision list) \<times> int" where
  "demo_authorize reqs opts w = (Inr (map demo_dec reqs), w + 5)"

definition demo_collaborators :: "int collaborators" where
  "demo_collaborators =
     \<lparr>engine_query = demo_engine, authorize = demo_authorize, date_now = (\<lambda>w. w)\<rparr>"

definition demo_config :: "int \<Rightarrow> nat \<Rightarrow> authorized_search_engine_config" where
  "demo_config budget n = \<lparr>queryLatencyBudgetMs = budget, pageSize = n\<rparr>"

definition demo_query :: search_query where
  "demo_query = \<lparr>query_term = ''a'', filters = None, types = None, pageCursor = None\<rparr>"

definition demo_options :: query_request_options where
  "demo_options = \<lparr>token = None\<rparr>"

definition demo_world :: "int world" where
  "demo_world = \<lparr>ext = 0, engine_calls = [], authorize_calls = []\<rparr>"

text \<open>The decisions of the gate in the scenario, and the types that pass it.\<close>

definition demo_types_all :: "string list" where
  "demo_types_all = [''software-catalog'', ''techdocs'', ''secrets'']"

definition demo_decisions :: "string \<rightharpoonup> authorize_decision" where
  "demo_decisions =
     zipObject demo_types_all
       [\<lparr>result = ALLOW\<rparr>, \<lparr>result = CONDITIONAL\<rparr>, \<lparr>result = DENY\<rparr>]"

definition demo_allowed :: "string list" where
  "demo_allowed = [''software-catalog'', ''techdocs'']"

text \<open>What the engine answers in the scenario when asked for the types that pass the gate.\<close>

definition demo_raw1 :: search_result_set where
  "demo_raw1 =
     \<lparr>results = [demo_doc ''software-catalog'' ''c1'' None,
                 demo_doc ''techdocs'' ''t1'' (Some ''component:a''),
                 demo_doc ''techdocs'' ''t2'' (Some ''component:b'')],
      nextPageCursor = Some ''1'', previousPageCursor = None\<rparr>"

text \<open>A query for the unregistered type only, and the decisions of its gate.\<close>

definition demo_query_adr :: search_query where
  "demo_query_adr = demo_query\<lparr>types := Some [''adr'']\<rparr>"

definition demo_decisions_adr :: "string \<rightharpoonup> authorize_decision" where
  "demo_decisions_adr = zipObject [''adr''] [\<lparr>result = ALLOW\<rparr>]"

definition demo_raw2 :: search_result_set where
  "demo_raw2 = \<lparr>results = demo_page2, nextPageCursor = None, previousPageCursor = None\<rparr>"

section \<open>Rounding to a double\<close>

lemma pow2_pos: "0 < pow2 e"
  by (simp add: pow2_def zero_less_power_int)

lemma pow2_add: "pow2 (a + b) = pow2 a * pow2 b"
  by (simp add: pow2_def power_int_add)

lemma pow2_nat: "0 \<le> e \<Longrightarrow> pow2 e = 2 ^ nat e"
  by (simp add: pow2_def power_int_def)

lemma pow2_less_cancel: "pow2 a < pow2 b \<Longrightarrow> a < b"
proof (rule ccontr)
  assume lt: "pow2 a < pow2 b" and "\<not> a < b"
  then have "b \<le> a" by simp
  then have "pow2 b \<le> pow2 a"
    unfolding pow2_def by (intro power_int_increasing) simp_all
  with lt show False by simp
qed

lemma pow2_mono: "a \<le> b \<Longrightarrow> pow2 a \<le> pow2 b"
  unfolding pow2_def by (intro power_int_increasing) simp_all

lemma floor_log2_le:
  assumes "0 < a"
  shows "pow2 (floor_log2 a) \<le> a"
proof -
  obtain p d where pd: "quotient_of a = (p, d)" by (cases "quotient_of a")
  have dpos: "0 < d" using quotient_of_denom_pos [OF pd] .
  have a_eq: "a = of_int p / of_int d" using quotient_of_div [OF pd] .
  have ppos: "0 < p"
    using assms dpos unfolding a_eq by (simp add: zero_less_divide_iff)
  define c where "c = bitlen p - bitlen d"
  have bp: "2 ^ nat (bitlen p - 1) \<le> p" using bitlen_bounds [OF ppos] by simp
  have bd: "d < 2 ^ nat (bitlen d)" using bitlen_bounds [OF dpos] by simp
  have bp1: "1 \<le> bitlen p"
  proof (rule ccontr)
    assume "\<not> 1 \<le> bitlen p"
    then have "nat (bitlen p) = 0" by simp
    with bitlen_bounds [OF ppos] have "p < 1" by simp
    with ppos show False by simp
  qed
  have bd0: "0 \<le> bitlen d" by (rule bitlen_nonneg)
  have rp: "(2::rat) ^ nat (bitlen p - 1) \<le> of_int p"
  proof -
    have "(of_int (2 ^ nat (bitlen p - 1)) :: rat) \<le> of_int p"
      using bp by (simp only: of_int_le_iff)
    then show ?thesis by simp
  qed
  have rd: "(of_int d :: rat) \<le> 2 ^ nat (bitlen d)"
  proof -
    have "(of_int d :: rat) \<le> of_int (2 ^ nat (bitlen d))"
      using bd by (simp only: of_int_le_iff)
    then show ?thesis by simp
  qed
  have "pow2 (c - 1) = pow2 (bitlen p - 1) * pow2 (- bitlen d)"
    unfolding c_def pow2_add [symmetric] by (simp add: algebra_simps)
  also have "\<dots> = 2 ^ nat (bitlen p - 1) / 2 ^ nat (bitlen d)"
    using bp1 bd0 by (simp add: pow2_def power_int_def field_simps)
  also have "\<dots> \<le> of_int p / of_int d"
    using rp rd dpos ppos by (intro frac_le) simp_all
  finally have low: "pow2 (c - 1) \<le> a" unfolding a_eq .
  show ?thesis
    using low unfolding floor_log2_def pd c_def Let_def by simp
qed

lemma round_half_even_of_int: "round_half_even (of_int k) = k"
  by (simp add: round_half_even_def)

lemma to_double_exact:
  assumes q: "q = of_int m * pow2 j"
    and m: "\<bar>m\<bar> < 2 ^ 53"
    and j: "- 1074 \<le> j" "j \<le> 971"
  shows "to_double q = Fin q"
proof (cases "q = 0")
  case True
  then show ?thesis by (simp add: to_double_def)
next
  case False
  define a where "a = \<bar>q\<bar>"
  define e where "e = max (floor_log2 a) (- 1022)"
  have apos: "0 < a" using False by (simp add: a_def)
  have a_eq: "a = of_int \<bar>m\<bar> * pow2 j"
    unfolding a_def q using pow2_pos [of j] by (simp add: abs_mult)
  have "(of_int \<bar>m\<bar> :: rat) < of_int (2 ^ 53)"
    using m by (simp only: of_int_less_iff)
  then have "(of_int \<bar>m\<bar> :: rat) < pow2 53" by (simp add: pow2_def)
  then have "a < pow2 53 * pow2 j"
    unfolding a_eq using pow2_pos [of j] by simp
  then have a_lt: "a < pow2 (53 + j)" by (simp add: pow2_add)
  have "pow2 (floor_log2 a) < pow2 (53 + j)"
    using floor_log2_le [OF apos] a_lt by simp
  then have "floor_log2 a < 53 + j" by (rule pow2_less_cancel)
  then have e_le: "e \<le> 52 + j" using j by (simp add: e_def)
  define t where "t = j - (e - 52)"
  have t0: "0 \<le> t" using e_le by (simp add: t_def)
  have "pow2 j = pow2 t * pow2 (e - 52)"
    unfolding pow2_add [symmetric] t_def by simp
  then have "a / pow2 (e - 52) = of_int \<bar>m\<bar> * pow2 t"
    unfolding a_eq using pow2_pos [of "e - 52"] by simp
  also have "\<dots> = of_int (\<bar>m\<bar> * 2 ^ nat t)"
    using t0 by (simp add: pow2_nat)
  finally have quot: "a / pow2 (e - 52) = of_int (\<bar>m\<bar> * 2 ^ nat t)" .
  have v: "of_int (round_half_even (a / pow2 (e - 52))) * pow2 (e - 52) = a"
    unfolding quot round_half_even_of_int
    unfolding quot [symmetric] using pow2_pos [of "e - 52"] by simp
  have "pow2 (53 + j) \<le> pow2 1024" using j by (intro pow2_mono) simp
  then have small: "\<not> pow2 1024 \<le> a" using a_lt by simp
  have "to_double q = Fin (if 0 < q then a else - a)"
    using False v small unfolding to_double_def Let_def a_def [symmetric] e_def [symmetric]
    by simp
  then show ?thesis using False by (simp add: a_def)
qed

lemma to_double_of_int: "\<bar>m\<bar> < 2 ^ 53 \<Longrightarrow> to_double (of_int m) = Fin (of_int m)"
  using to_double_exact [of "of_int m" m 0] by (simp add: pow2_def)

lemma to_double_of_nat:
  assumes "n \<le> 2 ^ 53 - 1"
  shows "to_double (of_nat n) = Fin (of_nat n)"
proof -
  have "int n < 2 ^ 53" using assms by simp
  then have "\<bar>int n\<bar> < 2 ^ 53" by simp
  from to_double_of_int [OF this] show ?thesis by simp
qed

lemma to_double_0: "to_double 0 = Fin 0"
  by (simp add: to_double_def)

lemma to_double_1: "to_double 1 = Fin 1"
  using to_double_of_nat [of 1] by simp

lemma to_double_numeral:
  "(numeral w :: nat) \<le> 2 ^ 53 - 1 \<Longrightarrow> to_double (numeral w) = Fin (numeral w)"
  using to_double_of_nat [of "numeral w"] by simp

lemma to_double_half_multiple:
  "\<bar>m\<bar> < 2 ^ 53 \<Longrightarrow> to_double (of_int m / 2) = Fin (of_int m / 2)"
  using to_double_exact [of "of_int m / 2" m "- 1"] by (simp add: pow2_def power_int_def)

lemma to_double_underflow:
  assumes "\<bar>q\<bar> < pow2 (- 1075)"
  shows "to_double q = Fin 0"
proof (cases "q = 0")
  case True
  then show ?thesis by (simp add: to_double_def)
next
  case False
  define a where "a = \<bar>q\<bar>"
  have apos: "0 < a" using False by (simp add: a_def)
  have a_lt: "a < pow2 (- 1075)" using assms by (simp add: a_def)
  have "pow2 (floor_log2 a) < pow2 (- 1075)"
    using floor_log2_le [OF apos] a_lt by simp
  then have "floor_log2 a < - 1075" by (rule pow2_less_cancel)
  then have e: "max (floor_log2 a) (- 1022) = - 1022" by simp
  define r where "r = a / pow2 (- 1074)"
  have "pow2 (- 1075) = pow2 (- 1074) * pow2 (- 1)"
    unfolding pow2_add [symmetric] by simp
  also have "\<dots> = pow2 (- 1074) / 2" by (simp add: pow2_def power_int_def)
  finally have "a < pow2 (- 1074) / 2" using a_lt by simp
  then have r_lt: "r < 1 / 2"
    unfolding r_def using pow2_pos [of "- 1074"] by (simp add: field_simps)
  have r_pos: "0 \<le> r" unfolding r_def using apos pow2_pos [of "- 1074"] by simp
  have fl: "\<lfloor>r\<rfloor> = 0" using r_lt r_pos by (simp add: floor_eq_iff)
  have "round_half_even r = 0"
    using r_lt by (simp add: round_half_even_def fl Let_def)
  moreover have "\<not> pow2 1024 \<le> 0" using pow2_pos [of 1024] by simp
  ultimately show ?thesis
    using False unfolding to_double_def Let_def a_def [symmetric] e
    by (simp add: r_def [symmetric])
qed

section \<open>The cursor codec: round trip\<close>

lemma of_char_b64_char:
  "n < 64 \<Longrightarrow> (of_char (b64_char n) :: nat) =
     (if n < 26 then 65 + n else if n < 52 then 71 + n else if n < 62 then n - 4
      else if n = 62 then 43 else 47)"
  by (simp add: b64_char_def)

lemma b64_char_not_pad: "n < 64 \<Longrightarrow> b64_char n \<noteq> CHR ''=''"
proof
  assume n: "n < 64" and eq: "b64_char n = CHR ''=''"
  from eq have "(of_char (b64_char n) :: nat) = 61" by simp
  with n show False by (simp add: of_char_b64_char split: if_splits)
qed

lemma unbase64_b64_char: "n < 64 \<Longrightarrow> unbase64 (b64_char n) = Some n"
proof -
  assume n: "n < 64"
  consider "n < 62" | "n = 62" | "n = 63" using n by linarith
  then show ?thesis
  proof cases
    case 1
    then show ?thesis
      unfolding unbase64_def Let_def using n
      by (auto simp add: of_char_b64_char)
  next
    case 2
    then show ?thesis by (simp add: unbase64_def b64_char_def)
  next
    case 3
    then show ?thesis by (simp add: unbase64_def b64_char_def)
  qed
qed

lemma sextets_Cons: "n < 64 \<Longrightarrow> sextets (b64_char n # s) = n # sextets s"
  by (simp add: sextets_def List.map_filter_simps unbase64_b64_char b64_char_not_pad)

lemma sextets_pad: "sextets (CHR ''='' # s) = []"
  by (simp add: sextets_def List.map_filter_simps)

lemma sextets_Nil: "sextets [] = []"
  by (simp add: sextets_def List.map_filter_simps)

lemma div_mult_add: "x < k \<Longrightarrow> (m * k + x) div k = (m::nat)"
  by simp

lemma mod_mult_add: "x < k \<Longrightarrow> (m * k + x) mod k = (x::nat)"
  by simp

lemma byte_parts:
  fixes a :: nat
  assumes "a < 256"
  shows "a div 4 < 64" "a div 16 < 16" "a div 64 < 4"
  using assms by (simp_all add: less_mult_imp_div_less)

lemma sextet_bounds:
  fixes a b c :: nat
  assumes "a < 256" "b < 256" "c < 256"
  shows "a div 4 < 64" "a mod 4 * 16 + b div 16 < 64" "b mod 16 * 4 + c div 64 < 64"
    "c mod 64 < 64" "a mod 4 * 16 < 64" "b mod 16 * 4 < 64"
proof -
  have "a mod 4 < 4" "b mod 16 < 16" by simp_all
  then have "a mod 4 \<le> 3" "b mod 16 \<le> 15" by linarith+
  then have "a mod 4 * 16 \<le> 48" "b mod 16 * 4 \<le> 60" by linarith+
  with byte_parts [OF assms(1)] byte_parts [OF assms(2)] byte_parts [OF assms(3)]
  show "a div 4 < 64" "a mod 4 * 16 + b div 16 < 64" "b mod 16 * 4 + c div 64 < 64"
    "c mod 64 < 64" "a mod 4 * 16 < 64" "b mod 16 * 4 < 64"
    by simp_all
qed

lemma bytes_of_group3:
  fixes a b c :: nat
  assumes "a < 256" "b < 256" "c < 256"
  shows "sextets_to_bytes (a div 4 # (a mod 4 * 16 + b div 16) # (b mod 16 * 4 + c div 64)
           # c mod 64 # rest) = a # b # c # sextets_to_bytes rest"
proof -
  note bb = byte_parts [OF assms(2)] and bc = byte_parts [OF assms(3)]
  have "a div 4 * 4 + (a mod 4 * 16 + b div 16) div 16 = a"
    by (simp only: div_mult_add [OF bb(2)] div_mult_mod_eq)
  moreover have "(a mod 4 * 16 + b div 16) mod 16 * 16 + (b mod 16 * 4 + c div 64) div 4 = b"
    by (simp only: mod_mult_add [OF bb(2)] div_mult_add [OF bc(3)] div_mult_mod_eq)
  moreover have "(b mod 16 * 4 + c div 64) mod 4 * 64 + c mod 64 = c"
    by (simp only: mod_mult_add [OF bc(3)] div_mult_mod_eq)
  ultimately show ?thesis by (simp only: sextets_to_bytes.simps append_Cons append_Nil)
qed

lemma bytes_of_group2:
  fixes a b :: nat
  assumes "a < 256" "b < 256"
  shows "sextets_to_bytes [a div 4, a mod 4 * 16 + b div 16, b mod 16 * 4] = [a, b]"
proof -
  note bb = byte_parts [OF assms(2)]
  have "a div 4 * 4 + (a mod 4 * 16 + b div 16) div 16 = a"
    by (simp only: div_mult_add [OF bb(2)] div_mult_mod_eq)
  moreover have "(a mod 4 * 16 + b div 16) mod 16 * 16 + (b mod 16 * 4) div 4 = b"
    by (simp only: mod_mult_add [OF bb(2)] div_mult_mod_eq) simp
  ultimately show ?thesis by (simp only: sextets_to_bytes.simps)
qed

lemma bytes_of_group1:
  fixes a :: nat
  assumes "a < 256"
  shows "sextets_to_bytes [a div 4, a mod 4 * 16] = [a]"
proof -
  have "a div 4 * 4 + (a mod 4 * 16) div 16 = a" by simp
  then show ?thesis by (simp only: sextets_to_bytes.simps)
qed

lemma base64_roundtrip_aux:
  "list_all (\<lambda>b. b < 256) bs \<Longrightarrow> sextets_to_bytes (sextets (base64_encode bs)) = bs"
proof (induction bs rule: base64_encode.induct)
  case 1
  then show ?case by (simp add: sextets_Nil)
next
  case (2 a)
  then have a: "a < 256" by simp
  have "sextets (base64_encode [a]) = [a div 4, a mod 4 * 16]"
    by (simp only: base64_encode.simps sextets_Cons sextets_pad sextet_bounds [OF a a a])
  then show ?case by (simp only: bytes_of_group1 [OF a])
next
  case (3 a b)
  then have a: "a < 256" and b: "b < 256" by simp_all
  have "sextets (base64_encode [a, b]) = [a div 4, a mod 4 * 16 + b div 16, b mod 16 * 4]"
    by (simp only: base64_encode.simps sextets_Cons sextets_pad sextet_bounds [OF a b b])
  then show ?case by (simp only: bytes_of_group2 [OF a b])
next
  case (4 a b c rest)
  then have a: "a < 256" and b: "b < 256" and c: "c < 256"
    and r: "list_all (\<lambda>b. b < 256) rest" by simp_all
  have IH: "sextets_to_bytes (sextets (base64_encode rest)) = rest" using 4 r by simp
  have "sextets (base64_encode (a # b # c # rest)) =
          a div 4 # (a mod 4 * 16 + b div 16) # (b mod 16 * 4 + c div 64) # c mod 64
          # sextets (base64_encode rest)"
    by (simp only: base64_encode.simps sextets_Cons sextet_bounds [OF a b c] append_Cons append_Nil)
  then show ?case by (simp only: bytes_of_group3 [OF a b c] IH)
qed

lemma base64_roundtrip:
  "list_all (\<lambda>b. b < 256) bs \<Longrightarrow> base64_decode (base64_encode bs) = bs"
  using base64_roundtrip_aux by (simp add: base64_decode_def)

lemma utf8_decode_ascii: "list_all (\<lambda>b. b < 128) bs \<Longrightarrow> utf8_decode bs = bs"
  by (induction bs) simp_all


lemma digit_char_props:
  assumes "d < 10"
  shows "is_digit (digit_char d)" and "digit_val (digit_char d) = d"
    and "(of_char (digit_char d) :: nat) = 48 + d"
  using assms by (simp_all add: is_digit_def digit_val_def digit_char_def)

lemma digits_of_all_digits: "list_all is_digit (digits_of n)"
proof (induction n rule: digits_of.induct)
  case (1 n)
  show ?case
  proof (cases "n < 10")
    case True
    then show ?thesis by (subst digits_of.simps) (simp add: digit_char_props)
  next
    case False
    with 1 show ?thesis by (subst digits_of.simps) (simp add: digit_char_props)
  qed
qed

lemma digits_of_not_Nil: "digits_of n \<noteq> []"
  by (subst digits_of.simps) simp

lemma dec_value_snoc: "dec_value (s @ [c]) = 10 * dec_value s + digit_val c"
  by (simp add: dec_value_def)

lemma dec_value_digits_of: "dec_value (digits_of n) = n"
proof (induction n rule: digits_of.induct)
  case (1 n)
  show ?case
  proof (cases "n < 10")
    case True
    then show ?thesis
      by (subst digits_of.simps) (simp add: dec_value_def digit_char_props)
  next
    case False
    with 1 have "dec_value (digits_of (n div 10)) = n div 10" by simp
    with False show ?thesis
      by (subst digits_of.simps) (simp add: dec_value_snoc digit_char_props)
  qed
qed

lemma is_digit_code: "is_digit c \<Longrightarrow> (of_char c :: nat) < 128 \<and> \<not> is_js_space (of_char c)"
  by (auto simp add: is_digit_def is_js_space_def)

lemma is_digit_not_sign:
  "is_digit c \<Longrightarrow> c \<noteq> CHR ''-'' \<and> c \<noteq> CHR ''+'' \<and> c \<noteq> CHR ''I'' \<and> c \<notin> set ''xXoObB''"
  by (auto simp add: is_digit_def)

lemma dropWhile_none: "\<forall>x\<in>set xs. \<not> P x \<Longrightarrow> dropWhile P xs = xs"
  by (cases xs) simp_all

lemma js_trim_no_space: "\<forall>c\<in>set cs. \<not> is_js_space c \<Longrightarrow> js_trim cs = cs"
  by (simp add: js_trim_def dropWhile_none)

lemma parse_non_decimal_digits:
  assumes "list_all is_digit s"
  shows "parse_non_decimal s = None"
proof (cases s)
  case Nil
  then show ?thesis by (simp add: parse_non_decimal_def)
next
  case (Cons z t)
  show ?thesis
  proof (cases t)
    case Nil
    with Cons show ?thesis by (simp add: parse_non_decimal_def)
  next
    case (Cons x ds)
    with assms \<open>s = z # t\<close> have "is_digit x" by simp
    then have "x \<notin> set ''xXoObB''" using is_digit_not_sign by blast
    with Cons \<open>s = z # t\<close> show ?thesis by (simp add: parse_non_decimal_def)
  qed
qed

lemma parse_unsigned_decimal_digits:
  assumes "list_all is_digit s" and "s \<noteq> []"
  shows "parse_unsigned_decimal s = to_double (of_nat (dec_value s))"
proof -
  from assms obtain c t where s: "s = c # t" by (cases s) auto
  with assms have "is_digit c" by simp
  then have "c \<noteq> CHR ''I''" using is_digit_not_sign by blast
  with s have ne: "s \<noteq> ''Infinity''" by auto
  have tw: "takeWhile is_digit s = s" and dw: "dropWhile is_digit s = []"
    using assms by (simp_all add: list_all_iff)
  show ?thesis
    using ne assms(2)
    by (simp add: parse_unsigned_decimal_def tw dw parse_exponent_def pow10_def)
qed

lemma parse_numeric_literal_digits:
  assumes "list_all is_digit s" and "s \<noteq> []"
  shows "parse_numeric_literal s = to_double (of_nat (dec_value s))"
proof -
  from assms obtain c t where s: "s = c # t" by (cases s) auto
  with assms have "is_digit c" by simp
  then have "c \<noteq> CHR ''-''" "c \<noteq> CHR ''+''" using is_digit_not_sign by blast+
  then show ?thesis
    using assms s
    by (simp add: parse_numeric_literal_def parse_non_decimal_digits parse_unsigned_decimal_digits)
qed

lemma js_Number_digits:
  assumes "list_all is_digit s" and "s \<noteq> []"
  shows "js_Number (map of_char s) = to_double (of_nat (dec_value s))"
proof -
  have sp: "\<forall>c\<in>set (map of_char s). \<not> is_js_space c"
    using assms(1) is_digit_code by (auto simp add: list_all_iff)
  have asc: "list_all (\<lambda>c. c < (128::nat)) (map of_char s)"
    using assms(1) is_digit_code by (auto simp add: list_all_iff)
  have rt: "map char_of (map of_char s :: nat list) = s"
    by (simp add: comp_def)
  show ?thesis
    using assms(2) asc
    by (simp add: js_Number_def js_trim_no_space [OF sp] rt parse_numeric_literal_digits [OF assms])
qed

lemma js_toString_nat:
  assumes "p \<le> 2 ^ 53 - 1"
  shows "js_toString (js_of_nat p) = digits_of p"
proof -
  have "p < 2 ^ 53" using assms by simp
  then have "(of_nat p :: rat) < of_nat (2 ^ 53)" by (simp only: of_nat_less_iff)
  then have "(of_nat p :: rat) < 2 ^ 53" by simp
  then show ?thesis by (simp add: unsigned_toString_def js_of_nat_def)
qed

text \<open>
  C4: for every non-negative integer page index \<open>p\<close> in the safe integer range, that is
  up to \<open>2^53 - 1\<close>, decoding the encoded cursor gives back exactly \<open>p\<close>:
  \<open>decodePageCursor(encodePageCursor({page: p}))\<close> is \<open>{page: p}\<close>.
\<close>

theorem C4_cursor_round_trip:
  assumes "p \<le> 2 ^ 53 - 1"
  shows "decodePageCursor (Some (encodePageCursor (js_of_nat p))) = Inr (js_of_nat p)"
proof -
  let ?ds = "digits_of p"
  let ?bytes = "utf8_encode_ascii ?ds"
  have dig: "list_all is_digit ?ds" by (rule digits_of_all_digits)
  have b128: "list_all (\<lambda>b. b < 128) ?bytes"
    using dig is_digit_code by (auto simp add: utf8_encode_ascii_def list_all_iff)
  then have b256: "list_all (\<lambda>b. b < 256) ?bytes"
    by (auto simp add: list_all_iff)
  have enc: "encodePageCursor (js_of_nat p) = base64_encode ?bytes"
    by (simp add: encodePageCursor_def js_toString_nat [OF assms])
  have ne: "base64_encode ?bytes \<noteq> []"
    using digits_of_not_Nil [of p]
    by (cases ?bytes rule: base64_encode.cases) (simp_all add: utf8_encode_ascii_def)
  have "js_Number (utf8_decode (base64_decode (base64_encode ?bytes))) = js_Number ?bytes"
    by (simp add: base64_roundtrip [OF b256] utf8_decode_ascii [OF b128])
  also have "\<dots> = to_double (of_nat (dec_value ?ds))"
    unfolding utf8_encode_ascii_def by (rule js_Number_digits [OF dig digits_of_not_Nil])
  also have "\<dots> = Fin (of_nat p)"
    by (simp add: dec_value_digits_of to_double_of_nat [OF assms])
  finally have num: "js_Number (utf8_decode (base64_decode (base64_encode ?bytes))) = Fin (of_nat p)" .
  show ?thesis
    unfolding enc decodePageCursor_def
    using ne by (simp add: num js_isNaN_def js_of_nat_def)
qed

theorem C4_cursor_round_trip_witness:
  "(9007199254740991::nat) \<le> 2 ^ 53 - 1
   \<and> decodePageCursor (Some (encodePageCursor (js_of_nat 9007199254740991)))
       = Inr (js_of_nat 9007199254740991)"
  using C4_cursor_round_trip [of 9007199254740991] by simp

section \<open>The cursor codec: what is rejected\<close>

lemma to_double_three_halves: "to_double (3 / 2) = Fin (3 / 2)"
  using to_double_half_multiple [of 3] by simp

lemma to_double_tiny: "to_double (pow10 (- 400)) = Fin 0"
proof (rule to_double_underflow)
  have "(2::rat) ^ 1075 < 10 ^ 400" by simp
  then show "\<bar>pow10 (- 400)\<bar> < pow2 (- 1075)"
    by (simp add: pow10_def pow2_def power_int_def field_simps)
qed

lemmas codec_steps =
  decodePageCursor_def base64_decode_def sextets_def unbase64_def List.map_filter_simps
  js_Number_def js_trim_def is_js_space_def char_of_def bit_0 js_isNaN_def
  parse_numeric_literal_def parse_non_decimal_def parse_unsigned_decimal_def is_digit_def
  parse_exponent_def dec_value_def digit_val_def radix_digit_def

lemmas codec_eval =
  codec_steps pow10_def to_double_0 to_double_1 to_double_numeral to_double_three_halves
  radix_digit_def

text \<open>
  The claim C5 as stated fails. The cursor \<open>SW5maW5pdHk=\<close> is the base64 text of
  \<open>Infinity\<close>: the decoded value is not a finite number, and it is returned as the page.
  The cursor \<open>MS41\<close> is the base64 text of \<open>1.5\<close>, which is not the decimal string of an
  integer page index, and it is returned as the page as well.
\<close>

theorem C5_decode_accepts_non_integer:
  "decodePageCursor (Some ''SW5maW5pdHk='') = Inr PosInf
   \<and> decodePageCursor (Some ''MS41'') = Inr (Fin (3 / 2))"
  by (simp add: codec_eval)

lemma js_toString_negative:
  assumes "0 < n" and "n \<le> 2 ^ 53 - 1"
  shows "js_toString (Fin (- of_nat n)) = CHR ''-'' # digits_of n"
proof -
  have "n < 2 ^ 53" using assms(2) by simp
  then have "(of_nat n :: rat) < of_nat (2 ^ 53)" by (simp only: of_nat_less_iff)
  then have "(of_nat n :: rat) < 2 ^ 53" by simp
  then show ?thesis using assms(1) by (simp add: unsigned_toString_def)
qed

lemma parse_negative_digits:
  assumes "list_all is_digit s" and "s \<noteq> []"
  shows "parse_numeric_literal (CHR ''-'' # s) = js_neg (to_double (of_nat (dec_value s)))"
proof -
  have "parse_non_decimal (CHR ''-'' # s) = None"
    by (simp add: parse_non_decimal_def split: list.splits)
  then show ?thesis
    by (simp add: parse_numeric_literal_def parse_unsigned_decimal_digits [OF assms])
qed

lemma js_Number_negative_digits:
  assumes "list_all is_digit s" and "s \<noteq> []"
  shows "js_Number (map of_char (CHR ''-'' # s)) = js_neg (to_double (of_nat (dec_value s)))"
proof -
  have sp: "\<forall>c\<in>set (map of_char (CHR ''-'' # s)). \<not> is_js_space c"
    using assms(1) is_digit_code by (auto simp add: list_all_iff is_js_space_def)
  have asc: "list_all (\<lambda>c. c < (128::nat)) (map of_char (CHR ''-'' # s))"
    using assms(1) is_digit_code by (auto simp add: list_all_iff)
  have rt: "map char_of (map of_char (CHR ''-'' # s) :: nat list) = CHR ''-'' # s"
    by (simp only: map_map comp_def char_of_char map_ident)
  have "js_trim (map of_char (CHR ''-'' # s)) = map of_char (CHR ''-'' # s)"
    by (rule js_trim_no_space [OF sp])
  then show ?thesis
    unfolding js_Number_def Let_def using asc
    by (simp only: rt parse_negative_digits [OF assms] if_True) simp
qed

lemma decode_negative_integer:
  assumes "0 < n" and "n \<le> 2 ^ 53 - 1"
  shows "decodePageCursor (Some (encodePageCursor (Fin (- of_nat n)))) = Inl InvalidCursor"
proof -
  let ?txt = "CHR ''-'' # digits_of n"
  let ?bytes = "utf8_encode_ascii ?txt"
  have dig: "list_all is_digit (digits_of n)" by (rule digits_of_all_digits)
  have b128: "list_all (\<lambda>b. b < 128) ?bytes"
    using dig is_digit_code by (auto simp add: utf8_encode_ascii_def list_all_iff)
  then have b256: "list_all (\<lambda>b. b < 256) ?bytes"
    by (auto simp add: list_all_iff)
  have enc: "encodePageCursor (Fin (- of_nat n)) = base64_encode ?bytes"
    by (simp only: encodePageCursor_def js_toString_negative [OF assms])
  have ne: "base64_encode ?bytes \<noteq> []"
    by (cases ?bytes rule: base64_encode.cases) (simp_all add: utf8_encode_ascii_def)
  have "js_Number (utf8_decode (base64_decode (base64_encode ?bytes))) = js_Number ?bytes"
    by (simp add: base64_roundtrip [OF b256] utf8_decode_ascii [OF b128])
  also have "\<dots> = js_neg (to_double (of_nat (dec_value (digits_of n))))"
    unfolding utf8_encode_ascii_def
    by (rule js_Number_negative_digits [OF dig digits_of_not_Nil])
  also have "\<dots> = Fin (- of_nat n)"
    by (simp add: dec_value_digits_of to_double_of_nat [OF assms(2)])
  finally have num:
    "js_Number (utf8_decode (base64_decode (base64_encode ?bytes))) = Fin (- of_nat n)" .
  show ?thesis
    unfolding enc decodePageCursor_def
    using ne assms(1) by (simp add: num js_isNaN_def)
qed

text \<open>
  C5, amended: an absent cursor, and an empty one, yields page 0. A cursor that is present
  and not empty is rejected with \<open>Invalid cursor\<close> exactly when the number that
  \<open>Number\<close> reads from its decoded text is NaN or is less than zero; in every other
  case that number is the page, whether or not it is a finite integer. In particular the
  base64 text of the decimal form of a negative integer is rejected.
\<close>

theorem C5_decode_rejects_nan_or_negative:
  "decodePageCursor None = Inr (Fin 0)
   \<and> decodePageCursor (Some []) = Inr (Fin 0)
   \<and> (c \<noteq> [] \<longrightarrow>
        (decodePageCursor (Some c) = Inl InvalidCursor
           \<longleftrightarrow> js_Number (utf8_decode (base64_decode c)) = NaN
               \<or> js_less (js_Number (utf8_decode (base64_decode c))) (Fin 0))
        \<and> (decodePageCursor (Some c) \<noteq> Inl InvalidCursor
           \<longrightarrow> decodePageCursor (Some c) = Inr (js_Number (utf8_decode (base64_decode c)))))
   \<and> (0 < n \<longrightarrow> n \<le> 2 ^ 53 - 1
        \<longrightarrow> decodePageCursor (Some (encodePageCursor (Fin (- of_nat n)))) = Inl InvalidCursor)"
  using decode_negative_integer [of n]
  by (simp add: decodePageCursor_def js_isNaN_def Let_def)

theorem C5_decode_rejects_witness:
  "''LTE='' \<noteq> [] \<and> decodePageCursor (Some ''LTE='') = Inl InvalidCursor
   \<and> ''MTI='' \<noteq> [] \<and> decodePageCursor (Some ''MTI='') = Inr (Fin 12)
   \<and> (0::nat) < 7 \<and> (7::nat) \<le> 2 ^ 53 - 1
   \<and> decodePageCursor (Some (encodePageCursor (Fin (- 7)))) = Inl InvalidCursor"
proof -
  have n1: "js_Number (utf8_decode (base64_decode ''LTE='')) = Fin (- 1)"
    by (simp add: codec_eval)
  have n2: "js_Number (utf8_decode (base64_decode ''MTI='')) = Fin 12"
    by (simp add: codec_eval)
  have a: "''LTE='' \<noteq> [] \<and> decodePageCursor (Some ''LTE='') = Inl InvalidCursor"
    using C5_decode_rejects_nan_or_negative [of "''LTE=''" 7] by (simp add: n1)
  have b: "''MTI='' \<noteq> [] \<and> decodePageCursor (Some ''MTI='') = Inr (Fin 12)"
    using C5_decode_rejects_nan_or_negative [of "''MTI=''" 7] by (simp add: n2)
  have c: "decodePageCursor (Some (encodePageCursor (Fin (- 7)))) = Inl InvalidCursor"
    using C5_decode_rejects_nan_or_negative [of "''LTE=''" 7] by simp
  from a b c show ?thesis by simp
qed

section \<open>The loader: every load reaches the permission service\<close>

lemma collect_batch_all:
  "distinct (map f ks) \<Longrightarrow> set (map f ks) \<inter> set seen = {} \<Longrightarrow> collect_batch f seen ks = ks"
proof (induction ks arbitrary: seen)
  case Nil
  then show ?case by simp
next
  case (Cons k ks)
  from Cons.prems have notin: "f k \<notin> set seen" by auto
  from Cons.prems have "distinct (map f ks)" and "set (map f ks) \<inter> set (f k # seen) = {}"
    by auto
  then have "collect_batch f (f k # seen) ks = ks" by (rule Cons.IH)
  with notin show ?case by simp
qed

lemma fresh_keys_distinct: "distinct (zip [n ..< n + length qs] qs)"
  by (simp add: distinct_zipI1)

lemma fresh_keys_above: "k \<in> set (zip [n ..< n + length qs] qs) \<Longrightarrow> n \<le> fst k"
  by (cases k) (auto dest: set_zip_leftD)

lemma fresh_keys_below: "k \<in> set (zip [n ..< n + length qs] qs) \<Longrightarrow> fst k < n + length qs"
  by (cases k) (auto dest: set_zip_leftD)

lemma fresh_keys_snd: "map snd (zip [n ..< n + length qs] qs) = qs"
  by (simp add: map_snd_zip)

lemma cache_freshD:
  "cache_fresh A \<Longrightarrow> k \<in> set (map fst (cacheMap A)) \<Longrightarrow> fst k < next_object A"
  by (auto simp add: cache_fresh_def)

lemma batch_of_fresh_keys:
  assumes "cache_fresh A"
  shows "collect_batch cacheKeyFn (map fst (cacheMap A))
           (zip [next_object A ..< next_object A + length qs] qs)
         = zip [next_object A ..< next_object A + length qs] qs"
proof (rule collect_batch_all)
  have "map cacheKeyFn (zip [next_object A ..< next_object A + length qs] qs)
        = zip [next_object A ..< next_object A + length qs] qs"
    by (simp add: cacheKeyFn_def [abs_def] map_idI)
  then show "distinct (map cacheKeyFn (zip [next_object A ..< next_object A + length qs] qs))"
    by (simp add: fresh_keys_distinct)
  show "set (map cacheKeyFn (zip [next_object A ..< next_object A + length qs] qs))
          \<inter> set (map fst (cacheMap A)) = {}"
  proof (rule ccontr)
    assume "\<not> ?thesis"
    then obtain k where k1: "k \<in> set (zip [next_object A ..< next_object A + length qs] qs)"
      and k2: "k \<in> set (map fst (cacheMap A))"
      by (auto simp add: cacheKeyFn_def)
    from k1 have "next_object A \<le> fst k" by (rule fresh_keys_above)
    moreover from assms k2 have "fst k < next_object A" by (rule cache_freshD)
    ultimately show False by simp
  qed
qed

lemma those_length: "those xs = Some ys \<Longrightarrow> length ys = length xs"
proof (induction xs arbitrary: ys)
  case Nil
  then show ?case by simp
next
  case (Cons x xs)
  then show ?case by (auto split: option.splits)
qed

lemma those_map_Some: "those (map Some ds) = Some ds"
  by (induction ds) simp_all

lemma dispatch_batch_length:
  "dispatch_batch C opts batch W = (Inr ds, W') \<Longrightarrow> length ds = length batch"
  by (auto simp add: dispatch_batch_def Let_def split: if_splits prod.splits sum.splits)

lemma dispatch_batch_engine_calls:
  "dispatch_batch C opts batch W = (r, W') \<Longrightarrow> engine_calls W' = engine_calls W"
  by (auto simp add: dispatch_batch_def Let_def split: if_splits prod.splits sum.splits)

lemma dispatch_batch_authorize_calls:
  "dispatch_batch C opts batch W = (r, W') \<Longrightarrow>
     authorize_calls W' = authorize_calls W @ (if batch = [] then [] else [map snd batch])"
  by (auto simp add: dispatch_batch_def Let_def split: if_splits prod.splits sum.splits)

lemma load_many_length:
  "load_many C opts qs S = (Inr vs, S') \<Longrightarrow> length vs = length qs"
  by (auto simp add: load_many_def Let_def split: prod.splits sum.splits option.splits
        dest!: those_length)

lemma load_many_engine_calls:
  "load_many C opts qs S = (r, S') \<Longrightarrow> engine_calls (snd S') = engine_calls (snd S)"
  by (auto simp add: load_many_def Let_def split: prod.splits sum.splits option.splits
        dest: dispatch_batch_engine_calls)

lemma map_of_zip_distinct:
  "distinct ks \<Longrightarrow> length ks = length ds \<Longrightarrow> map (map_of (zip ks ds)) ks = map Some ds"
proof (induction ks arbitrary: ds)
  case Nil
  then show ?case by simp
next
  case (Cons k ks)
  then obtain d ds' where ds: "ds = d # ds'" by (cases ds) auto
  with Cons.prems have len: "length ks = length ds'" and dist: "distinct ks" and nk: "k \<notin> set ks"
    by auto
  have "map (map_of (zip (k # ks) (d # ds'))) ks = map (map_of (zip ks ds')) ks"
  proof (intro map_cong refl)
    fix x assume "x \<in> set ks"
    with nk have "x \<noteq> k" by auto
    then show "map_of (zip (k # ks) (d # ds')) x = map_of (zip ks ds') x" by simp
  qed
  moreover have "map_of (zip (k # ks) (d # ds')) k = Some d" by simp
  ultimately have "map (map_of (zip (k # ks) (d # ds'))) (k # ks) = map Some (d # ds')"
    using Cons.IH [OF dist len] by (simp only: list.map)
  then show ?case unfolding ds .
qed

lemma map_of_append_fresh:
  "k \<notin> set (map fst xs) \<Longrightarrow> map_of (xs @ ys) k = map_of ys k"
  by (simp add: map_add_def map_of_eq_None_iff [THEN iffD2])

text \<open>
  With a cache that holds earlier key objects only, one tick of loads asks the permission
  service for all of its requests, in order, and every load gets the answer at its
  position.
\<close>

lemma load_many_fresh:
  assumes fresh: "cache_fresh A"
  shows "\<exists>A'. cache_fresh A'
           \<and> load_many C opts qs (A, W)
               = (fst (dispatch_batch C opts (zip [next_object A ..< next_object A + length qs] qs) W),
                  A',
                  snd (dispatch_batch C opts (zip [next_object A ..< next_object A + length qs] qs) W))"
proof -
  let ?n = "next_object A"
  let ?keys = "zip [?n ..< ?n + length qs] qs"
  let ?A1 = "A\<lparr>next_object := ?n + length qs\<rparr>"
  have batch: "collect_batch cacheKeyFn (map fst (cacheMap A)) ?keys = ?keys"
    by (rule batch_of_fresh_keys [OF fresh])
  obtain r W' where d: "dispatch_batch C opts ?keys W = (r, W')" by (cases "dispatch_batch C opts ?keys W")
  show ?thesis
  proof (cases r)
    case (Inl err)
    have "cache_fresh ?A1" using fresh by (auto simp add: cache_fresh_def)
    moreover have "load_many C opts qs (A, W) = (Inl err, ?A1, W')"
      using d Inl by (simp add: load_many_def Let_def batch)
    ultimately show ?thesis using d Inl by auto
  next
    case (Inr ds)
    with d have len: "length ds = length ?keys" by (auto dest: dispatch_batch_length)
    let ?cm = "cacheMap A @ zip (map cacheKeyFn ?keys) ds"
    have ck: "map cacheKeyFn ?keys = ?keys" by (simp add: cacheKeyFn_def [abs_def] map_idI)
    have look: "map (\<lambda>k. map_of ?cm (cacheKeyFn k)) ?keys = map Some ds"
    proof -
      have "map (\<lambda>k. map_of ?cm (cacheKeyFn k)) ?keys = map (map_of (zip ?keys ds)) ?keys"
      proof (intro map_cong refl)
        fix k assume k: "k \<in> set ?keys"
        have "k \<notin> set (map fst (cacheMap A))"
        proof
          assume "k \<in> set (map fst (cacheMap A))"
          with fresh have "fst k < ?n" by (rule cache_freshD)
          moreover from k have "?n \<le> fst k" by (rule fresh_keys_above)
          ultimately show False by simp
        qed
        then have "map_of (cacheMap A @ zip ?keys ds) k = map_of (zip ?keys ds) k"
          by (rule map_of_append_fresh)
        then show "map_of ?cm (cacheKeyFn k) = map_of (zip ?keys ds) k"
          by (simp only: ck cacheKeyFn_def)
      qed
      also have "\<dots> = map Some ds"
        using fresh_keys_distinct len [symmetric] by (rule map_of_zip_distinct)
      finally show ?thesis .
    qed
    have fr: "cache_fresh (?A1\<lparr>cacheMap := ?cm\<rparr>)"
    proof -
      have "\<forall>k \<in> set (map fst (zip ?keys ds)). fst k < ?n + length qs"
        using len by (auto dest!: set_zip_leftD fresh_keys_below)
      with fresh show ?thesis by (auto simp add: cache_fresh_def ck)
    qed
    have "load_many C opts qs (A, W) = (Inr ds, ?A1\<lparr>cacheMap := ?cm\<rparr>, W')"
      using d Inr by (simp add: load_many_def Let_def batch look those_map_Some del: map_of_append)
    with fr d Inr show ?thesis by auto
  qed
qed

section \<open>Promise.all over loads\<close>

lemma dispatch_batch_snd:
  "map snd b1 = map snd b2 \<Longrightarrow> dispatch_batch C opts b1 W = dispatch_batch C opts b2 W"
proof -
  assume eq: "map snd b1 = map snd b2"
  then have "length b1 = length b2" by (metis length_map)
  then have "(b1 = []) = (b2 = [])" by auto
  with eq show ?thesis by (simp add: dispatch_batch_def)
qed

lemma dispatch_fresh_keys:
  "dispatch_batch C opts (zip [n ..< n + length qs] qs) W = ask_permissions C opts qs W"
  unfolding ask_permissions_def
  by (rule dispatch_batch_snd) (simp add: fresh_keys_snd comp_def)

lemma ask_permissions_length:
  "ask_permissions C opts qs W = (Inr ds, W') \<Longrightarrow> length ds = length qs"
  unfolding ask_permissions_def by (auto dest: dispatch_batch_length)

lemma ask_permissions_Nil: "ask_permissions C opts [] W = (Inr [], W)"
  by (simp add: ask_permissions_def dispatch_batch_def)

lemma ask_permissions_calls:
  "ask_permissions C opts qs W = (r, W') \<Longrightarrow>
     authorize_calls W' = authorize_calls W @ (if qs = [] then [] else [qs])
     \<and> engine_calls W' = engine_calls W"
  unfolding ask_permissions_def
  by (auto simp add: comp_def dest: dispatch_batch_authorize_calls dispatch_batch_engine_calls)


lemma load_many_ask:
  assumes "cache_fresh A"
  shows "\<exists>A'. cache_fresh A'
           \<and> load_many C opts qs (A, W)
               = (fst (ask_permissions C opts qs W), A', snd (ask_permissions C opts qs W))"
  using load_many_fresh [OF assms, of C opts qs W] by (simp only: dispatch_fresh_keys)

lemma await_all_settle:
  "await_all C opts ps S = (Inr xs, S') \<Longrightarrow>
     \<exists>ds. length ds = length (requests_of ps) \<and> xs = settle ps ds"
  by (auto simp add: await_all_def split: prod.splits sum.splits dest: load_many_length)

lemma await_all_engine_calls:
  "await_all C opts ps S = (r, S') \<Longrightarrow> engine_calls (snd S') = engine_calls (snd S)"
  by (auto simp add: await_all_def split: prod.splits sum.splits dest: load_many_engine_calls)

lemma await_all_ask:
  assumes "cache_fresh A"
  shows "\<exists>A'. cache_fresh A'
           \<and> await_all C opts ps (A, W)
               = (case ask_permissions C opts (requests_of ps) W of
                    (Inl err, W') \<Rightarrow> (Inl err, A', W')
                  | (Inr ds, W') \<Rightarrow> (Inr (settle ps ds), A', W'))"
proof -
  from load_many_ask [OF assms, of C opts "requests_of ps" W]
  obtain A' where fr: "cache_fresh A'"
    and lm: "load_many C opts (requests_of ps) (A, W)
             = (fst (ask_permissions C opts (requests_of ps) W), A',
                snd (ask_permissions C opts (requests_of ps) W))"
    by blast
  have "await_all C opts ps (A, W)
        = (case ask_permissions C opts (requests_of ps) W of
             (Inl err, W') \<Rightarrow> (Inl err, A', W')
           | (Inr ds, W') \<Rightarrow> (Inr (settle ps ds), A', W'))"
    by (simp add: await_all_def lm split: prod.splits sum.splits)
  with fr show ?thesis by blast
qed

lemma type_gate_ask:
  assumes "cache_fresh A"
  shows "\<exists>A'. cache_fresh A'
           \<and> type_gate C tys opts rts (A, W)
               = (case ask_permissions C opts (gate_requests tys rts) W of
                    (Inl err, W') \<Rightarrow> (Inl err, A', W')
                  | (Inr ds, W') \<Rightarrow>
                      (Inr (zipObject rts (settle (map (gate_pending tys) rts) ds)), A', W'))"
proof -
  from await_all_ask [OF assms, of C opts "map (gate_pending tys) rts" W]
  obtain A' where fr: "cache_fresh A'"
    and aw: "await_all C opts (map (gate_pending tys) rts) (A, W)
             = (case ask_permissions C opts (requests_of (map (gate_pending tys) rts)) W of
                  (Inl err, W') \<Rightarrow> (Inl err, A', W')
                | (Inr ds, W') \<Rightarrow> (Inr (settle (map (gate_pending tys) rts) ds), A', W'))"
    by blast
  have "type_gate C tys opts rts (A, W)
        = (case ask_permissions C opts (gate_requests tys rts) W of
             (Inl err, W') \<Rightarrow> (Inl err, A', W')
           | (Inr ds, W') \<Rightarrow>
               (Inr (zipObject rts (settle (map (gate_pending tys) rts) ds)), A', W'))"
    by (simp add: type_gate_def aw gate_requests_def split: prod.splits sum.splits)
  with fr show ?thesis by blast
qed

lemma filterResults_ask:
  assumes "cache_fresh A"
  shows "\<exists>A'. cache_fresh A'
           \<and> filterResults C tys opts rs td (A, W)
               = (case ask_permissions C opts (per_document_requests tys td rs) W of
                    (Inl err, W') \<Rightarrow> (Inl err, A', W')
                  | (Inr ds, W') \<Rightarrow>
                      (Inr (compact (settle (map (filter_pending tys td) rs) ds)), A', W'))"
proof -
  from await_all_ask [OF assms, of C opts "map (filter_pending tys td) rs" W]
  obtain A' where fr: "cache_fresh A'"
    and aw: "await_all C opts (map (filter_pending tys td) rs) (A, W)
             = (case ask_permissions C opts (requests_of (map (filter_pending tys td) rs)) W of
                  (Inl err, W') \<Rightarrow> (Inl err, A', W')
                | (Inr ds, W') \<Rightarrow> (Inr (settle (map (filter_pending tys td) rs) ds), A', W'))"
    by blast
  have "filterResults C tys opts rs td (A, W)
        = (case ask_permissions C opts (per_document_requests tys td rs) W of
             (Inl err, W') \<Rightarrow> (Inl err, A', W')
           | (Inr ds, W') \<Rightarrow>
               (Inr (compact (settle (map (filter_pending tys td) rs) ds)), A', W'))"
    by (simp add: filterResults_def aw per_document_requests_def split: prod.splits sum.splits)
  with fr show ?thesis by blast
qed

lemma new_DataLoader_fresh: "cache_fresh new_DataLoader"
  by (simp add: cache_fresh_def new_DataLoader_def)

section \<open>The result filter\<close>

lemma compact_simps:
  "compact [] = []"
  "compact (Some x # xs) = x # compact xs"
  "compact (None # xs) = compact xs"
  by (simp_all add: compact_def List.map_filter_simps)

lemma filter_pending_cases:
  obtains (keep) "filter_pending tys td r = Value (Some r)"
  | (check) p where "decision_result td (type r) \<noteq> Some ALLOW"
      and "visibility_of tys (type r) = Some p"
      and "truthy (authorization (document r))"
      and "filter_pending tys td r
           = Load \<lparr>permission = p, resourceRef = authorization (document r)\<rparr>
               (\<lambda>decision. if result decision = ALLOW then Some r else None)"
  by (cases "decision_result td (type r) = Some ALLOW"; cases "visibility_of tys (type r)";
      cases "truthy (authorization (document r))")
    (auto simp add: filter_pending_def)


lemma truthy_Some: "truthy a \<Longrightarrow> \<exists>ref. a = Some ref \<and> ref \<noteq> []"
  by (cases a) (simp_all add: truthy_def)

lemma filtered_by_rule:
  "compact (settle (map (filter_pending tys td) rs)
      (map dec (requests_of (map (filter_pending tys td) rs))))
   = filter (spec_keep tys td dec) rs"
proof (induction rs)
  case Nil
  then show ?case by (simp add: compact_simps)
next
  case (Cons r rs)
  show ?case
  proof (cases r rule: filter_pending_cases [of tys td])
    case keep
    then have "spec_keep tys td dec r"
      by (auto simp add: filter_pending_def spec_keep_def truthy_def
            split: option.splits if_splits)
    with keep Cons.IH show ?thesis by (simp add: compact_simps)
  next
    case (check p)
    from truthy_Some [OF check(3)] obtain ref
      where ref: "authorization (document r) = Some ref" "ref \<noteq> []" by blast
    have "spec_keep tys td dec r
          \<longleftrightarrow> result (dec \<lparr>permission = p, resourceRef = authorization (document r)\<rparr>) = ALLOW"
      using check(1,2) ref by (simp add: spec_keep_def)
    with check(4) Cons.IH show ?thesis by (simp add: compact_simps)
  qed
qed


lemmas demo_defs =
  demo_collaborators_def demo_types_def demo_config_def demo_query_def demo_options_def
  demo_world_def demo_engine_def demo_authorize_def demo_dec_def demo_page1_def demo_page2_def
  demo_doc_def demo_decisions_def demo_req_def demo_types_all_def demo_allowed_def
  demo_raw1_def demo_raw2_def demo_query_adr_def demo_decisions_adr_def




section \<open>The gate, the loop and the log of calls\<close>


lemma call_engine_effect:
  assumes "call_engine C opts q ats cursor S = (r, S1)"
  shows "engine_calls (snd S1) = engine_calls (snd S) @ [q\<lparr>types := Some ats, pageCursor := cursor\<rparr>]"
    and "authorize_calls (snd S1) = authorize_calls (snd S)"
    and "fst S1 = fst S"
  using assms by (auto simp add: call_engine_def Let_def split: prod.splits)


lemma filterResults_engine_calls:
  "filterResults C tys opts rs td S = (r, S') \<Longrightarrow> engine_calls (snd S') = engine_calls (snd S)"
  by (auto simp add: filterResults_def split: prod.splits sum.splits dest: await_all_engine_calls)


lemma type_gate_engine_calls:
  "type_gate C tys opts rts S = (r, S') \<Longrightarrow> engine_calls (snd S') = engine_calls (snd S)"
  by (auto simp add: type_gate_def split: prod.splits sum.splits dest: await_all_engine_calls)

text \<open>The ways one iteration of the loop can go.\<close>

lemma backfill_Suc_cases:
  assumes "backfill (Suc fuel) C tys cfg opts q td ats start target acc cursor S = Some (r, S')"
  obtains (engine_error) err where "call_engine C opts q ats cursor S = (Inl err, S')" "r = Inl err"
  | (filter_error) np S1 err where "call_engine C opts q ats cursor S = (Inr np, S1)"
      "filterResults C tys opts (results np) td S1 = (Inl err, S')" "r = Inl err"
  | (continue) np S1 kept S2 where "call_engine C opts q ats cursor S = (Inr np, S1)"
      "filterResults C tys opts (results np) td S1 = (Inr kept, S2)"
      "truthy (nextPageCursor np)"
      "js_less (js_of_nat (length (acc @ kept))) target"
      "\<not> date_now C (ext (snd S2)) - start > queryLatencyBudgetMs cfg"
      "backfill fuel C tys cfg opts q td ats start target (acc @ kept) (nextPageCursor np) S2
       = Some (r, S')"
  | (stop) np S1 kept where "call_engine C opts q ats cursor S = (Inr np, S1)"
      "filterResults C tys opts (results np) td S1 = (Inr kept, S')"
      "\<not> (truthy (nextPageCursor np) \<and> js_less (js_of_nat (length (acc @ kept))) target
          \<and> \<not> date_now C (ext (snd S')) - start > queryLatencyBudgetMs cfg)"
      "r = Inr (acc @ kept, nextPageCursor np,
                date_now C (ext (snd S')) - start > queryLatencyBudgetMs cfg)"
proof -
  obtain r1 S1 where ce: "call_engine C opts q ats cursor S = (r1, S1)"
    by (cases "call_engine C opts q ats cursor S")
  show thesis
  proof (cases r1)
    case (Inl err)
    with assms ce show thesis by (intro engine_error [of err]) simp_all
  next
    case (Inr np)
    obtain r2 S2 where fr: "filterResults C tys opts (results np) td S1 = (r2, S2)"
      by (cases "filterResults C tys opts (results np) td S1")
    show thesis
    proof (cases r2)
      case (Inl err)
      with assms ce fr \<open>r1 = Inr np\<close> show thesis by (intro filter_error [of np S1 err]) simp_all
    next
      case kept: (Inr kept)
      show thesis
      proof (cases "truthy (nextPageCursor np) \<and> js_less (js_of_nat (length (acc @ kept))) target
          \<and> \<not> date_now C (ext (snd S2)) - start > queryLatencyBudgetMs cfg")
        case True
        with assms ce fr \<open>r1 = Inr np\<close> kept show thesis
          by (intro continue [of np S1 kept S2]) (simp_all add: Let_def)
      next
        case False
        with assms ce fr \<open>r1 = Inr np\<close> kept show thesis
          by (intro stop [of np S1 kept]) (auto simp add: Let_def)
      qed
    qed
  qed
qed

lemma backfill_engine_calls:
  "backfill fuel C tys cfg opts q td ats start target acc cursor S = Some (r, S') \<Longrightarrow>
     \<exists>calls. engine_calls (snd S') = engine_calls (snd S) @ calls
            \<and> (\<forall>c \<in> set calls. types c = Some ats)"
proof (induction fuel arbitrary: acc cursor S)
  case 0
  then show ?case by simp
next
  case (Suc fuel)
  let ?c = "q\<lparr>types := Some ats, pageCursor := cursor\<rparr>"
  have ty: "types ?c = Some ats" by simp
  from Suc.prems show ?case
  proof (cases rule: backfill_Suc_cases)
    case (engine_error err)
    have "engine_calls (snd S') = engine_calls (snd S) @ [?c]"
      using call_engine_effect(1) [OF engine_error(1)] by simp
    with ty show ?thesis by (intro exI [of _ "[?c]"]) simp
  next
    case (filter_error np S1 err)
    have "engine_calls (snd S') = engine_calls (snd S) @ [?c]"
      using call_engine_effect(1) [OF filter_error(1)] filterResults_engine_calls [OF filter_error(2)]
      by simp
    with ty show ?thesis by (intro exI [of _ "[?c]"]) simp
  next
    case (continue np S1 kept S2)
    have one: "engine_calls (snd S2) = engine_calls (snd S) @ [?c]"
      using call_engine_effect(1) [OF continue(1)] filterResults_engine_calls [OF continue(2)]
      by simp
    from Suc.IH [OF continue(6)] obtain calls where
      "engine_calls (snd S') = engine_calls (snd S2) @ calls" "\<forall>c \<in> set calls. types c = Some ats"
      by blast
    with one ty show ?thesis by (intro exI [of _ "?c # calls"]) simp
  next
    case (stop np S1 kept)
    have "engine_calls (snd S') = engine_calls (snd S) @ [?c]"
      using call_engine_effect(1) [OF stop(1)] filterResults_engine_calls [OF stop(2)]
      by simp
    with ty show ?thesis by (intro exI [of _ "[?c]"]) simp
  qed
qed



text \<open>The ways a query that ends can go.\<close>

lemma query_cases:
  assumes "query fuel C tys cfg q opts W = Some (r, W')"
  obtains (gate_error) err S1 where
      "type_gate C tys opts (requested_types tys q) (new_DataLoader, W) = (Inl err, S1)"
      "r = Inl err" "W' = snd S1"
  | (cursor_error) td S1 err where
      "type_gate C tys opts (requested_types tys q) (new_DataLoader, W) = (Inr td, S1)"
      "decodePageCursor (pageCursor q) = Inl err" "r = Inl err" "W' = snd S1"
  | (loop_error) td S1 page err S2 where
      "type_gate C tys opts (requested_types tys q) (new_DataLoader, W) = (Inr td, S1)"
      "decodePageCursor (pageCursor q) = Inr page"
      "backfill fuel C tys cfg opts q td (authorized_types td (requested_types tys q))
         (date_now C (ext W)) (target_results cfg page) [] None S1 = Some (Inl err, S2)"
      "r = Inl err" "W' = snd S2"
  | (ok) td S1 page lr S2 where
      "type_gate C tys opts (requested_types tys q) (new_DataLoader, W) = (Inr td, S1)"
      "decodePageCursor (pageCursor q) = Inr page"
      "backfill fuel C tys cfg opts q td (authorized_types td (requested_types tys q))
         (date_now C (ext W)) (target_results cfg page) [] None S1 = Some (Inr lr, S2)"
      "r = Inr (finalize cfg page lr)" "W' = snd S2"
proof -
  obtain g S1 where tg: "type_gate C tys opts (requested_types tys q) (new_DataLoader, W) = (g, S1)"
    by (cases "type_gate C tys opts (requested_types tys q) (new_DataLoader, W)")
  show thesis
  proof (cases g)
    case (Inl err)
    with assms tg show thesis by (intro gate_error [of err S1]) (auto simp add: query_def Let_def)
  next
    case td: (Inr td)
    show thesis
    proof (cases "decodePageCursor (pageCursor q)")
      case (Inl err)
      with assms tg td show thesis
        by (intro cursor_error [of td S1 err]) (auto simp add: query_def Let_def)
    next
      case page: (Inr page)
      from assms tg td page obtain b where
        bf: "backfill fuel C tys cfg opts q td (authorized_types td (requested_types tys q))
               (date_now C (ext W)) (target_results cfg page) [] None S1 = Some b"
        by (auto simp add: query_def Let_def split: option.splits)
      obtain r2 S2 where b: "b = (r2, S2)" by (cases b)
      show thesis
      proof (cases r2)
        case (Inl err)
        with assms tg td page bf b show thesis
          by (intro loop_error [of td S1 page err S2]) (auto simp add: query_def Let_def)
      next
        case (Inr lr)
        with assms tg td page bf b show thesis
          by (intro ok [of td S1 page lr S2]) (auto simp add: query_def Let_def)
      qed
    qed
  qed
qed

lemma query_engine_calls:
  assumes "query fuel C tys cfg q opts W = Some (r, W')"
    and "type_gate C tys opts (requested_types tys q) (new_DataLoader, W) = (Inr td, S1)"
  shows "\<exists>calls. engine_calls W' = engine_calls W @ calls
           \<and> (\<forall>c \<in> set calls. types c = Some (authorized_types td (requested_types tys q)))"
proof -
  have g: "engine_calls (snd S1) = engine_calls W"
    using type_gate_engine_calls [OF assms(2)] by simp
  from assms(1) show ?thesis
  proof (cases rule: query_cases)
    case (gate_error err S1')
    with assms(2) show ?thesis by simp
  next
    case (cursor_error td' S1' err)
    with assms(2) g show ?thesis by (intro exI [of _ "[]"]) simp
  next
    case (loop_error td' S1' page err S2)
    with assms(2) have "backfill fuel C tys cfg opts q td (authorized_types td (requested_types tys q))
         (date_now C (ext W)) (target_results cfg page) [] None S1 = Some (Inl err, S2)" by simp
    from backfill_engine_calls [OF this] g loop_error(5) show ?thesis by simp
  next
    case (ok td' S1' page lr S2)
    with assms(2) have "backfill fuel C tys cfg opts q td (authorized_types td (requested_types tys q))
         (date_now C (ext W)) (target_results cfg page) [] None S1 = Some (Inr lr, S2)" by simp
    from backfill_engine_calls [OF this] g ok(5) show ?thesis by simp
  qed
qed

section \<open>Evaluating the loop and the scenario\<close>

lemma backfill_stop:
  assumes "call_engine C opts q ats cursor S = (Inr np, S1)"
    and "filterResults C tys opts (results np) td S1 = (Inr kept, S2)"
    and "\<not> (truthy (nextPageCursor np) \<and> js_less (js_of_nat (length (acc @ kept))) target
          \<and> \<not> date_now C (ext (snd S2)) - start > queryLatencyBudgetMs cfg)"
  shows "backfill (Suc fuel) C tys cfg opts q td ats start target acc cursor S
         = Some (Inr (acc @ kept, nextPageCursor np,
                      date_now C (ext (snd S2)) - start > queryLatencyBudgetMs cfg), S2)"
  using assms by (auto simp add: Let_def)

lemma backfill_continue:
  assumes "call_engine C opts q ats cursor S = (Inr np, S1)"
    and "filterResults C tys opts (results np) td S1 = (Inr kept, S2)"
    and "truthy (nextPageCursor np)"
    and "js_less (js_of_nat (length (acc @ kept))) target"
    and "\<not> date_now C (ext (snd S2)) - start > queryLatencyBudgetMs cfg"
  shows "backfill (Suc fuel) C tys cfg opts q td ats start target acc cursor S
         = backfill fuel C tys cfg opts q td ats start target (acc @ kept) (nextPageCursor np) S2"
  using assms by (auto simp add: Let_def)

lemma query_ok:
  assumes "type_gate C tys opts (requested_types tys q) (new_DataLoader, W) = (Inr td, S1)"
    and "decodePageCursor (pageCursor q) = Inr page"
    and "backfill fuel C tys cfg opts q td (authorized_types td (requested_types tys q))
           (date_now C (ext W)) (target_results cfg page) [] None S1 = Some (Inr lr, S2)"
  shows "query fuel C tys cfg q opts W = Some (Inr (finalize cfg page lr), snd S2)"
  using assms by (simp add: query_def Let_def)

lemma encode_0: "encodePageCursor (Fin 0) = ''MA==''"
  by (simp add: encodePageCursor_def utf8_encode_ascii_def unsigned_toString_def digits_of.simps
        digit_char_def b64_char_def char_of_def bit_0)

lemma encode_1: "encodePageCursor (Fin 1) = ''MQ==''"
  by (simp add: encodePageCursor_def utf8_encode_ascii_def unsigned_toString_def digits_of.simps
        digit_char_def b64_char_def char_of_def bit_0)

lemma decode_absent: "decodePageCursor None = Inr (Fin 0)"
  by (simp add: decodePageCursor_def)

lemma demo_ask:
  "ask_permissions demo_collaborators opts qs W
   = (if qs = [] then (Inr [], W)
      else (Inr (map demo_dec qs),
            W\<lparr>ext := ext W + 5, authorize_calls := authorize_calls W @ [qs]\<rparr>))"
  by (simp add: ask_permissions_def dispatch_batch_def demo_collaborators_def demo_authorize_def
        comp_def)

lemma demo_requested: "requested_types demo_types demo_query = demo_types_all"
  by (simp add: requested_types_def demo_defs)

lemma demo_authorized: "authorized_types demo_decisions demo_types_all = demo_allowed"
  by (simp add: authorized_types_def decision_result_def zipObject_def demo_defs)

lemma demo_gate_requests:
  "gate_requests demo_types demo_types_all
   = [demo_req ''techdocs.read'' None, demo_req ''secrets.read'' None]"
  by (simp add: gate_requests_def gate_pending_def visibility_of_def demo_defs)

lemma demo_gate_settle:
  "zipObject demo_types_all
     (settle (map (gate_pending demo_types) demo_types_all)
        [demo_dec (demo_req ''techdocs.read'' None), demo_dec (demo_req ''secrets.read'' None)])
   = demo_decisions"
  by (simp add: gate_pending_def visibility_of_def demo_defs)

lemma demo_gate:
  "\<exists>A. cache_fresh A
      \<and> type_gate demo_collaborators demo_types demo_options demo_types_all
            (new_DataLoader, demo_world)
          = (Inr demo_decisions, A,
             \<lparr>ext = 5, engine_calls = [],
              authorize_calls = [[demo_req ''techdocs.read'' None, demo_req ''secrets.read'' None]]\<rparr>)"
proof -
  from type_gate_ask [OF new_DataLoader_fresh, of demo_collaborators demo_types demo_options
      demo_types_all demo_world]
  obtain A where "cache_fresh A"
    and "type_gate demo_collaborators demo_types demo_options demo_types_all
           (new_DataLoader, demo_world)
         = (case ask_permissions demo_collaborators demo_options
                   (gate_requests demo_types demo_types_all) demo_world of
              (Inl err, W') \<Rightarrow> (Inl err, A, W')
            | (Inr ds, W') \<Rightarrow>
                (Inr (zipObject demo_types_all
                        (settle (map (gate_pending demo_types) demo_types_all) ds)), A, W'))"
    by blast
  then show ?thesis
    by (intro exI [of _ A]) (simp add: demo_ask demo_gate_requests demo_gate_settle demo_world_def)
qed

lemma demo_engine_first:
  "call_engine demo_collaborators demo_options demo_query demo_allowed None (A, W)
   = (Inr demo_raw1, A,
      W\<lparr>ext := ext W + 10,
        engine_calls := engine_calls W @ [demo_query\<lparr>types := Some demo_allowed\<rparr>]\<rparr>)"
  by (simp add: call_engine_def demo_defs)

lemma demo_engine_second:
  "call_engine demo_collaborators demo_options demo_query demo_allowed (Some ''1'') (A, W)
   = (Inr demo_raw2, A,
      W\<lparr>ext := ext W + 10,
        engine_calls := engine_calls W
          @ [demo_query\<lparr>types := Some demo_allowed, pageCursor := Some ''1''\<rparr>]\<rparr>)"
  by (simp add: call_engine_def demo_defs)

lemma demo_requests_first:
  "per_document_requests demo_types demo_decisions (results demo_raw1)
   = [demo_req ''techdocs.read'' (Some ''component:a''),
      demo_req ''techdocs.read'' (Some ''component:b'')]"
  by (simp add: per_document_requests_def filter_pending_def visibility_of_def
        decision_result_def zipObject_def truthy_def demo_defs)

lemma demo_requests_second:
  "per_document_requests demo_types demo_decisions (results demo_raw2)
   = [demo_req ''techdocs.read'' (Some ''component:a'')]"
  by (simp add: per_document_requests_def filter_pending_def visibility_of_def
        decision_result_def zipObject_def truthy_def demo_defs)

lemma demo_kept_first:
  "filter (spec_keep demo_types demo_decisions demo_dec) (results demo_raw1)
   = [demo_doc ''software-catalog'' ''c1'' None,
      demo_doc ''techdocs'' ''t1'' (Some ''component:a'')]"
  by (simp add: demo_defs spec_keep_def decision_result_def zipObject_def visibility_of_def)

lemma demo_kept_second:
  "filter (spec_keep demo_types demo_decisions demo_dec) (results demo_raw2) = demo_page2"
  by (simp add: demo_defs spec_keep_def decision_result_def zipObject_def visibility_of_def)

lemma demo_filter:
  assumes "cache_fresh A"
  shows "\<exists>A'. cache_fresh A'
           \<and> filterResults demo_collaborators demo_types demo_options rs demo_decisions (A, W)
               = (Inr (filter (spec_keep demo_types demo_decisions demo_dec) rs), A',
                  if per_document_requests demo_types demo_decisions rs = [] then W
                  else W\<lparr>ext := ext W + 5,
                         authorize_calls := authorize_calls W
                           @ [per_document_requests demo_types demo_decisions rs]\<rparr>)"
proof -
  from filterResults_ask [OF assms, of demo_collaborators demo_types demo_options rs
      demo_decisions W]
  obtain A' where "cache_fresh A'"
    and "filterResults demo_collaborators demo_types demo_options rs demo_decisions (A, W)
         = (case ask_permissions demo_collaborators demo_options
                   (per_document_requests demo_types demo_decisions rs) W of
              (Inl err, W') \<Rightarrow> (Inl err, A', W')
            | (Inr ds, W') \<Rightarrow>
                (Inr (compact (settle (map (filter_pending demo_types demo_decisions) rs) ds)),
                 A', W'))"
    by blast
  moreover have "compact (settle (map (filter_pending demo_types demo_decisions) rs)
                   (map demo_dec (per_document_requests demo_types demo_decisions rs)))
                 = filter (spec_keep demo_types demo_decisions demo_dec) rs"
    unfolding per_document_requests_def by (rule filtered_by_rule)
  moreover have "per_document_requests demo_types demo_decisions rs = []
                 \<Longrightarrow> compact (settle (map (filter_pending demo_types demo_decisions) rs) [])
                     = filter (spec_keep demo_types demo_decisions demo_dec) rs"
    using filtered_by_rule [of demo_types demo_decisions rs demo_dec]
    by (simp add: per_document_requests_def)
  ultimately show ?thesis
    by (intro exI [of _ A']) (simp add: demo_ask)
qed


text \<open>The first iteration of the loop in the scenario, from the state the gate leaves.\<close>

lemma demo_first_iteration:
  assumes "cache_fresh A"
  shows "\<exists>A'. cache_fresh A'
     \<and> call_engine demo_collaborators demo_options demo_query demo_allowed None
          (A, \<lparr>ext = 5, engine_calls = [], authorize_calls = L\<rparr>)
        = (Inr demo_raw1, A,
           \<lparr>ext = 15, engine_calls = [demo_query\<lparr>types := Some demo_allowed\<rparr>],
            authorize_calls = L\<rparr>)
     \<and> filterResults demo_collaborators demo_types demo_options (results demo_raw1) demo_decisions
          (A, \<lparr>ext = 15, engine_calls = [demo_query\<lparr>types := Some demo_allowed\<rparr>],
               authorize_calls = L\<rparr>)
        = (Inr [demo_doc ''software-catalog'' ''c1'' None,
                demo_doc ''techdocs'' ''t1'' (Some ''component:a'')], A',
           \<lparr>ext = 20, engine_calls = [demo_query\<lparr>types := Some demo_allowed\<rparr>],
            authorize_calls = L @ [[demo_req ''techdocs.read'' (Some ''component:a''),
                                    demo_req ''techdocs.read'' (Some ''component:b'')]]\<rparr>)"
proof -
  let ?W = "\<lparr>ext = 15, engine_calls = [demo_query\<lparr>types := Some demo_allowed\<rparr>],
             authorize_calls = L\<rparr> :: int world"
  from demo_filter [OF assms, of "results demo_raw1" ?W]
  obtain A' where "cache_fresh A'"
    and "filterResults demo_collaborators demo_types demo_options (results demo_raw1)
           demo_decisions (A, ?W)
         = (Inr (filter (spec_keep demo_types demo_decisions demo_dec) (results demo_raw1)), A',
            if per_document_requests demo_types demo_decisions (results demo_raw1) = [] then ?W
            else ?W\<lparr>ext := ext ?W + 5,
                    authorize_calls := authorize_calls ?W
                      @ [per_document_requests demo_types demo_decisions (results demo_raw1)]\<rparr>)"
    by blast
  then show ?thesis
    by (intro exI [of _ A']) (simp add: demo_engine_first demo_requests_first demo_kept_first)
qed

lemma demo_second_iteration:
  assumes "cache_fresh A"
  shows "\<exists>A'. cache_fresh A'
     \<and> call_engine demo_collaborators demo_options demo_query demo_allowed (Some ''1'')
          (A, \<lparr>ext = 20, engine_calls = E, authorize_calls = L\<rparr>)
        = (Inr demo_raw2, A,
           \<lparr>ext = 30,
            engine_calls = E @ [demo_query\<lparr>types := Some demo_allowed, pageCursor := Some ''1''\<rparr>],
            authorize_calls = L\<rparr>)
     \<and> filterResults demo_collaborators demo_types demo_options (results demo_raw2) demo_decisions
          (A, \<lparr>ext = 30,
               engine_calls = E @ [demo_query\<lparr>types := Some demo_allowed, pageCursor := Some ''1''\<rparr>],
               authorize_calls = L\<rparr>)
        = (Inr demo_page2, A',
           \<lparr>ext = 35,
            engine_calls = E @ [demo_query\<lparr>types := Some demo_allowed, pageCursor := Some ''1''\<rparr>],
            authorize_calls = L @ [[demo_req ''techdocs.read'' (Some ''component:a'')]]\<rparr>)"
proof -
  let ?W = "\<lparr>ext = 30,
             engine_calls = E @ [demo_query\<lparr>types := Some demo_allowed, pageCursor := Some ''1''\<rparr>],
             authorize_calls = L\<rparr> :: int world"
  from demo_filter [OF assms, of "results demo_raw2" ?W]
  obtain A' where "cache_fresh A'"
    and "filterResults demo_collaborators demo_types demo_options (results demo_raw2)
           demo_decisions (A, ?W)
         = (Inr (filter (spec_keep demo_types demo_decisions demo_dec) (results demo_raw2)), A',
            if per_document_requests demo_types demo_decisions (results demo_raw2) = [] then ?W
            else ?W\<lparr>ext := ext ?W + 5,
                    authorize_calls := authorize_calls ?W
                      @ [per_document_requests demo_types demo_decisions (results demo_raw2)]\<rparr>)"
    by blast
  then show ?thesis
    by (intro exI [of _ A']) (simp add: demo_engine_second demo_requests_second demo_kept_second)
qed


declare backfill.simps [simp del]

lemma demo_decode: "decodePageCursor (pageCursor demo_query) = Inr (Fin 0)"
  by (simp add: demo_query_def decodePageCursor_def)

lemmas number_eval =
  target_results_def js_of_nat_def to_double_0 to_double_1 to_double_numeral js_slice_def trunc_rat_def truthy_def
  demo_config_def


lemma demo_run_budget:
  "query (Suc fuel) demo_collaborators demo_types (demo_config 5 3) demo_query demo_options
     demo_world
   = Some (Inr \<lparr>results = [demo_doc ''software-catalog'' ''c1'' None,
                            demo_doc ''techdocs'' ''t1'' (Some ''component:a'')],
                 nextPageCursor = None, previousPageCursor = None\<rparr>,
           \<lparr>ext = 20, engine_calls = [demo_query\<lparr>types := Some demo_allowed\<rparr>],
            authorize_calls =
              [[demo_req ''techdocs.read'' None, demo_req ''secrets.read'' None],
               [demo_req ''techdocs.read'' (Some ''component:a''),
                demo_req ''techdocs.read'' (Some ''component:b'')]]\<rparr>)"
proof -
  let ?L = "[[demo_req ''techdocs.read'' None, demo_req ''secrets.read'' None]]"
  let ?W1 = "\<lparr>ext = 5, engine_calls = [], authorize_calls = ?L\<rparr> :: int world"
  let ?W3 = "\<lparr>ext = 20, engine_calls = [demo_query\<lparr>types := Some demo_allowed\<rparr>],
              authorize_calls = ?L @ [[demo_req ''techdocs.read'' (Some ''component:a''),
                                       demo_req ''techdocs.read'' (Some ''component:b'')]]\<rparr>
             :: int world"
  let ?kept = "[demo_doc ''software-catalog'' ''c1'' None,
                demo_doc ''techdocs'' ''t1'' (Some ''component:a'')]"
  from demo_gate obtain A1 where f1: "cache_fresh A1"
    and gate: "type_gate demo_collaborators demo_types demo_options demo_types_all
                 (new_DataLoader, demo_world) = (Inr demo_decisions, A1, ?W1)"
    by blast
  from demo_first_iteration [OF f1, of ?L] obtain A2 where
    eng: "call_engine demo_collaborators demo_options demo_query demo_allowed None (A1, ?W1)
          = (Inr demo_raw1, A1,
             \<lparr>ext = 15, engine_calls = [demo_query\<lparr>types := Some demo_allowed\<rparr>],
              authorize_calls = ?L\<rparr>)"
    and fil: "filterResults demo_collaborators demo_types demo_options (results demo_raw1)
                demo_decisions
                (A1, \<lparr>ext = 15, engine_calls = [demo_query\<lparr>types := Some demo_allowed\<rparr>],
                      authorize_calls = ?L\<rparr>)
              = (Inr ?kept, A2, ?W3)"
    by blast
  have loop: "backfill (Suc fuel) demo_collaborators demo_types (demo_config 5 3) demo_options
                demo_query demo_decisions demo_allowed (date_now demo_collaborators (ext demo_world))
                (target_results (demo_config 5 3) (Fin 0)) [] None (A1, ?W1)
              = Some (Inr ([] @ ?kept, nextPageCursor demo_raw1, True), A2, ?W3)"
    by (subst backfill_stop [OF eng fil])
       (simp_all add: number_eval demo_collaborators_def demo_world_def)
  have gate': "type_gate demo_collaborators demo_types demo_options
                 (requested_types demo_types demo_query) (new_DataLoader, demo_world)
               = (Inr demo_decisions, A1, ?W1)"
    using gate by (simp only: demo_requested)
  have loop': "backfill (Suc fuel) demo_collaborators demo_types (demo_config 5 3) demo_options
                demo_query demo_decisions
                (authorized_types demo_decisions (requested_types demo_types demo_query))
                (date_now demo_collaborators (ext demo_world))
                (target_results (demo_config 5 3) (Fin 0)) [] None (A1, ?W1)
              = Some (Inr ([] @ ?kept, nextPageCursor demo_raw1, True), A2, ?W3)"
    using loop by (simp only: demo_requested demo_authorized)
  from query_ok [OF gate' demo_decode loop'] show ?thesis
    by (simp add: finalize_def number_eval encode_1 demo_raw1_def)
qed

lemma demo_run_backfill:
  "query (Suc (Suc fuel)) demo_collaborators demo_types (demo_config 1000 3) demo_query
     demo_options demo_world
   = Some (Inr \<lparr>results = [demo_doc ''software-catalog'' ''c1'' None,
                            demo_doc ''techdocs'' ''t1'' (Some ''component:a''),
                            demo_doc ''techdocs'' ''t3'' (Some ''component:a'')],
                 nextPageCursor = Some ''MQ=='', previousPageCursor = None\<rparr>,
           \<lparr>ext = 35,
            engine_calls = [demo_query\<lparr>types := Some demo_allowed\<rparr>,
                            demo_query\<lparr>types := Some demo_allowed, pageCursor := Some ''1''\<rparr>],
            authorize_calls =
              [[demo_req ''techdocs.read'' None, demo_req ''secrets.read'' None],
               [demo_req ''techdocs.read'' (Some ''component:a''),
                demo_req ''techdocs.read'' (Some ''component:b'')],
               [demo_req ''techdocs.read'' (Some ''component:a'')]]\<rparr>)"
proof -
  let ?L = "[[demo_req ''techdocs.read'' None, demo_req ''secrets.read'' None]]"
  let ?L2 = "?L @ [[demo_req ''techdocs.read'' (Some ''component:a''),
                    demo_req ''techdocs.read'' (Some ''component:b'')]]"
  let ?E = "[demo_query\<lparr>types := Some demo_allowed\<rparr>]"
  let ?E2 = "?E @ [demo_query\<lparr>types := Some demo_allowed, pageCursor := Some ''1''\<rparr>]"
  let ?W1 = "\<lparr>ext = 5, engine_calls = [], authorize_calls = ?L\<rparr> :: int world"
  let ?W3 = "\<lparr>ext = 20, engine_calls = ?E, authorize_calls = ?L2\<rparr> :: int world"
  let ?W5 = "\<lparr>ext = 35, engine_calls = ?E2,
              authorize_calls = ?L2 @ [[demo_req ''techdocs.read'' (Some ''component:a'')]]\<rparr>
             :: int world"
  let ?kept = "[demo_doc ''software-catalog'' ''c1'' None,
                demo_doc ''techdocs'' ''t1'' (Some ''component:a'')]"
  let ?cfg = "demo_config 1000 3"
  let ?start = "date_now demo_collaborators (ext demo_world)"
  from demo_gate obtain A1 where f1: "cache_fresh A1"
    and gate: "type_gate demo_collaborators demo_types demo_options demo_types_all
                 (new_DataLoader, demo_world) = (Inr demo_decisions, A1, ?W1)"
    by blast
  from demo_first_iteration [OF f1, of ?L] obtain A2 where f2: "cache_fresh A2"
    and eng: "call_engine demo_collaborators demo_options demo_query demo_allowed None (A1, ?W1)
          = (Inr demo_raw1, A1, \<lparr>ext = 15, engine_calls = ?E, authorize_calls = ?L\<rparr>)"
    and fil: "filterResults demo_collaborators demo_types demo_options (results demo_raw1)
                demo_decisions (A1, \<lparr>ext = 15, engine_calls = ?E, authorize_calls = ?L\<rparr>)
              = (Inr ?kept, A2, ?W3)"
    by blast
  from demo_second_iteration [OF f2, of ?E ?L2] obtain A3 where
    eng2: "call_engine demo_collaborators demo_options demo_query demo_allowed (Some ''1'')
             (A2, ?W3)
           = (Inr demo_raw2, A2, \<lparr>ext = 30, engine_calls = ?E2, authorize_calls = ?L2\<rparr>)"
    and fil2: "filterResults demo_collaborators demo_types demo_options (results demo_raw2)
                 demo_decisions (A2, \<lparr>ext = 30, engine_calls = ?E2, authorize_calls = ?L2\<rparr>)
               = (Inr demo_page2, A3, ?W5)"
    by blast
  have step1: "backfill (Suc (Suc fuel)) demo_collaborators demo_types ?cfg demo_options
                 demo_query demo_decisions demo_allowed ?start (target_results ?cfg (Fin 0))
                 [] None (A1, ?W1)
               = backfill (Suc fuel) demo_collaborators demo_types ?cfg demo_options
                   demo_query demo_decisions demo_allowed ?start (target_results ?cfg (Fin 0))
                   ([] @ ?kept) (nextPageCursor demo_raw1) (A2, ?W3)"
    by (rule backfill_continue [OF eng fil])
       (simp_all add: number_eval demo_collaborators_def demo_world_def demo_raw1_def)
  have cur: "nextPageCursor demo_raw1 = Some ''1''" by (simp add: demo_raw1_def)
  have step2: "backfill (Suc fuel) demo_collaborators demo_types ?cfg demo_options
                 demo_query demo_decisions demo_allowed ?start (target_results ?cfg (Fin 0))
                 ([] @ ?kept) (Some ''1'') (A2, ?W3)
               = Some (Inr (([] @ ?kept) @ demo_page2, nextPageCursor demo_raw2, False), A3, ?W5)"
    by (subst backfill_stop [OF eng2 fil2])
       (simp_all add: number_eval demo_collaborators_def demo_world_def demo_raw2_def)
  have gate': "type_gate demo_collaborators demo_types demo_options
                 (requested_types demo_types demo_query) (new_DataLoader, demo_world)
               = (Inr demo_decisions, A1, ?W1)"
    using gate by (simp only: demo_requested)
  have loop': "backfill (Suc (Suc fuel)) demo_collaborators demo_types ?cfg demo_options
                demo_query demo_decisions
                (authorized_types demo_decisions (requested_types demo_types demo_query))
                ?start (target_results ?cfg (Fin 0)) [] None (A1, ?W1)
              = Some (Inr (([] @ ?kept) @ demo_page2, nextPageCursor demo_raw2, False), A3, ?W5)"
    using step1 step2 by (simp only: demo_requested demo_authorized cur)
  from query_ok [OF gate' demo_decode loop'] show ?thesis
    by (simp add: finalize_def number_eval encode_1 demo_raw2_def demo_page2_def)
qed

section \<open>Types denied at the gate\<close>




section \<open>Repeated requests to the permission service\<close>

text \<open>
  C2 says that within one query the permission service is never asked twice for the same
  pair of permission and resource reference. The code does not achieve this: the loader
  is built without a cache key function, so it caches by the identity of the key object,
  and every \<open>load\<close> is given a new object literal; no load is ever answered from the
  cache (\<open>batch_of_fresh_keys\<close>). In the scenario with a page size of 3 the loop runs
  twice; the second raw page holds another TechDocs page of component \<open>a\<close>, and the
  permission service is called a third time, with the request for
  (\<open>techdocs.read\<close>, \<open>component:a\<close>) that its second call had already answered.
\<close>

theorem C2_same_key_authorized_twice:
  "map_option (\<lambda>out. authorize_calls (snd out))
     (query (Suc (Suc 0)) demo_collaborators demo_types (demo_config 1000 3) demo_query
        demo_options demo_world)
   = Some [[demo_req ''techdocs.read'' None, demo_req ''secrets.read'' None],
           [demo_req ''techdocs.read'' (Some ''component:a''),
            demo_req ''techdocs.read'' (Some ''component:b'')],
           [demo_req ''techdocs.read'' (Some ''component:a'')]]"
  by (simp add: demo_run_backfill)

section \<open>The pass-through operations\<close>

lemma setTranslator_delegates: "setTranslator E translator w = engine_setTranslator E translator w"
  by (simp add: setTranslator_def)

lemma index_same_call: "snd (index E ty documents w) = snd (engine_index E ty documents w)"
  by (simp add: index_def split: prod.splits call_outcome.splits)

lemma index_outcome:
  "fst (index E ty documents w)
   = (case fst (engine_index E ty documents w) of Throws err \<Rightarrow> Rejects err | _ \<Rightarrow> Fulfils)"
  by (simp add: index_def split: prod.splits call_outcome.splits)

text \<open>
  C9 says that \<open>index\<close> behaves as the underlying engine's \<open>index\<close> does, a failure of
  which reaches the caller unchanged. \<open>setTranslator\<close> and \<open>index\<close> do hand their
  arguments to the engine unchanged, but \<open>index\<close> neither awaits nor returns the engine's
  promise: when that promise is rejected, the promise of the wrapper's \<open>index\<close> is
  fulfilled all the same.
\<close>

theorem C9_index_loses_rejection:
  "index \<lparr>engine_index = (\<lambda>ty documents w. (Rejects (Thrown ''index unavailable''), w)),
          engine_setTranslator = (\<lambda>(translator::unit) w. w)\<rparr>
     ''techdocs'' [] () = (Fulfils, ())"
  by (simp add: index_def)

section \<open>The latency budget\<close>

text \<open>
  C6: when, at the end of an iteration, the time elapsed since the start of the query
  exceeds \<open>queryLatencyBudgetMs\<close>, the loop ends there, whatever cursor the engine gave and
  however few results are accumulated: it returns with the state that iteration left, so
  with exactly one more engine call than before the iteration, and the result set built
  from it has no \<open>nextPageCursor\<close>. In particular, when this happens in the first
  iteration of a query, the query returns after that single engine call, without a
  \<open>nextPageCursor\<close>.
\<close>

theorem C6_budget_ends_loop:
  assumes eng: "call_engine C opts q ats cursor S = (Inr np, S1)"
    and fil: "filterResults C tys opts (results np) td S1 = (Inr kept, S2)"
    and over: "date_now C (ext (snd S2)) - start > queryLatencyBudgetMs cfg"
  shows "backfill (Suc fuel) C tys cfg opts q td ats start target acc cursor S
           = Some (Inr (acc @ kept, nextPageCursor np, True), S2)
         \<and> engine_calls (snd S2)
             = engine_calls (snd S) @ [q\<lparr>types := Some ats, pageCursor := cursor\<rparr>]
         \<and> nextPageCursor (finalize cfg page (acc @ kept, nextPageCursor np, True)) = None
         \<and> (type_gate C tys opts (requested_types tys q) (new_DataLoader, W) = (Inr td, S)
              \<longrightarrow> ats = authorized_types td (requested_types tys q)
              \<longrightarrow> decodePageCursor (pageCursor q) = Inr page
              \<longrightarrow> start = date_now C (ext W)
              \<longrightarrow> target = target_results cfg page
              \<longrightarrow> acc = [] \<longrightarrow> cursor = None
              \<longrightarrow> query (Suc fuel) C tys cfg q opts W
                  = Some (Inr (finalize cfg page (kept, nextPageCursor np, True)), snd S2))"
proof -
  have loop: "backfill (Suc fuel) C tys cfg opts q td ats start target acc cursor S
              = Some (Inr (acc @ kept, nextPageCursor np, True), S2)"
    using backfill_stop [OF eng fil, where acc = acc and target = target and start = start
        and cfg = cfg and fuel = fuel] over by simp
  have calls: "engine_calls (snd S2)
               = engine_calls (snd S) @ [q\<lparr>types := Some ats, pageCursor := cursor\<rparr>]"
    using call_engine_effect(1) [OF eng] filterResults_engine_calls [OF fil] by simp
  have fin: "nextPageCursor (finalize cfg page (acc @ kept, nextPageCursor np, True)) = None"
    by (simp add: finalize_def)
  have whole: "type_gate C tys opts (requested_types tys q) (new_DataLoader, W) = (Inr td, S)
              \<longrightarrow> ats = authorized_types td (requested_types tys q)
              \<longrightarrow> decodePageCursor (pageCursor q) = Inr page
              \<longrightarrow> start = date_now C (ext W)
              \<longrightarrow> target = target_results cfg page
              \<longrightarrow> acc = [] \<longrightarrow> cursor = None
              \<longrightarrow> query (Suc fuel) C tys cfg q opts W
                  = Some (Inr (finalize cfg page (kept, nextPageCursor np, True)), snd S2)"
  proof (intro impI)
    assume gate: "type_gate C tys opts (requested_types tys q) (new_DataLoader, W) = (Inr td, S)"
      and "ats = authorized_types td (requested_types tys q)"
      and dec: "decodePageCursor (pageCursor q) = Inr page"
      and "start = date_now C (ext W)" and "target = target_results cfg page"
      and "acc = []" and "cursor = None"
    with loop have "backfill (Suc fuel) C tys cfg opts q td
                      (authorized_types td (requested_types tys q)) (date_now C (ext W))
                      (target_results cfg page) [] None S
                    = Some (Inr (kept, nextPageCursor np, True), S2)"
      by simp
    from query_ok [OF gate dec this]
    show "query (Suc fuel) C tys cfg q opts W
          = Some (Inr (finalize cfg page (kept, nextPageCursor np, True)), snd S2)" .
  qed
  from loop calls fin whole show ?thesis by blast
qed

theorem C6_budget_ends_loop_witness:
  "date_now demo_collaborators (20::int) - date_now demo_collaborators (ext demo_world)
     > queryLatencyBudgetMs (demo_config 5 3)
   \<and> query (Suc 0) demo_collaborators demo_types (demo_config 5 3) demo_query demo_options
       demo_world
     = Some (Inr \<lparr>results = [demo_doc ''software-catalog'' ''c1'' None,
                              demo_doc ''techdocs'' ''t1'' (Some ''component:a'')],
                   nextPageCursor = None, previousPageCursor = None\<rparr>,
             \<lparr>ext = 20, engine_calls = [demo_query\<lparr>types := Some demo_allowed\<rparr>],
              authorize_calls =
                [[demo_req ''techdocs.read'' None, demo_req ''secrets.read'' None],
                 [demo_req ''techdocs.read'' (Some ''component:a''),
                  demo_req ''techdocs.read'' (Some ''component:b'')]]\<rparr>)"
proof -
  let ?L = "[[demo_req ''techdocs.read'' None, demo_req ''secrets.read'' None]]"
  let ?W1 = "\<lparr>ext = 5, engine_calls = [], authorize_calls = ?L\<rparr> :: int world"
  let ?W2 = "\<lparr>ext = 15, engine_calls = [demo_query\<lparr>types := Some demo_allowed\<rparr>],
              authorize_calls = ?L\<rparr> :: int world"
  let ?W3 = "\<lparr>ext = 20, engine_calls = [demo_query\<lparr>types := Some demo_allowed\<rparr>],
              authorize_calls = ?L @ [[demo_req ''techdocs.read'' (Some ''component:a''),
                                       demo_req ''techdocs.read'' (Some ''component:b'')]]\<rparr>
             :: int world"
  let ?kept = "[demo_doc ''software-catalog'' ''c1'' None,
                demo_doc ''techdocs'' ''t1'' (Some ''component:a'')]"
  let ?cfg = "demo_config 5 3"
  let ?start = "date_now demo_collaborators (ext demo_world)"
  from demo_gate obtain A1 where f1: "cache_fresh A1"
    and "type_gate demo_collaborators demo_types demo_options demo_types_all
           (new_DataLoader, demo_world) = (Inr demo_decisions, A1, ?W1)"
    by blast
  then have gate: "type_gate demo_collaborators demo_types demo_options
                     (requested_types demo_types demo_query) (new_DataLoader, demo_world)
                   = (Inr demo_decisions, A1, ?W1)"
    by (simp only: demo_requested)
  from demo_first_iteration [OF f1, of ?L] obtain A2 where
    eng: "call_engine demo_collaborators demo_options demo_query demo_allowed None (A1, ?W1)
          = (Inr demo_raw1, A1, ?W2)"
    and fil: "filterResults demo_collaborators demo_types demo_options (results demo_raw1)
                demo_decisions (A1, ?W2) = (Inr ?kept, A2, ?W3)"
    by blast
  have over: "date_now demo_collaborators (ext (snd (A2, ?W3))) - ?start
              > queryLatencyBudgetMs ?cfg"
    by (simp add: demo_collaborators_def demo_world_def demo_config_def)
  have ats: "demo_allowed = authorized_types demo_decisions (requested_types demo_types demo_query)"
    by (simp only: demo_requested demo_authorized)
  from C6_budget_ends_loop [OF eng fil over, where fuel = 0
      and target = "target_results ?cfg (Fin 0)" and acc = "[]" and page = "Fin 0"
      and W = demo_world]
    gate ats demo_decode
  have "query (Suc 0) demo_collaborators demo_types ?cfg demo_query demo_options demo_world
        = Some (Inr (finalize ?cfg (Fin 0) (?kept, nextPageCursor demo_raw1, True)),
                snd (A2, ?W3))"
    by blast
  moreover have "finalize ?cfg (Fin 0) (?kept, nextPageCursor demo_raw1, True)
                 = \<lparr>results = ?kept, nextPageCursor = None, previousPageCursor = None\<rparr>"
    by (simp add: finalize_def number_eval)
  ultimately show ?thesis
    by (simp add: demo_collaborators_def demo_world_def demo_config_def)
qed

section \<open>The page and its cursors\<close>







section \<open>Types allowed at the gate\<close>

lemma zipObject_in_zip: "zipObject ks vs k = Some v \<Longrightarrow> (k, v) \<in> set (zip ks vs)"
  unfolding zipObject_def by (drule map_of_SomeD) simp

lemma zipObject_defined:
  assumes "k \<in> set ks" and "length ks = length vs"
  shows "zipObject ks vs k \<noteq> None"
proof -
  have "fst ` set (rev (zip ks vs)) = set ks"
    using assms(2) by (simp add: map_fst_zip flip: set_map)
  with assms(1) show ?thesis
    unfolding zipObject_def by (simp only: map_of_eq_None_iff not_not)
qed

lemma gate_pending_no_permission:
  "visibility_of tys t = None \<Longrightarrow> gate_pending tys t = Value \<lparr>result = ALLOW\<rparr>"
  by (simp add: gate_pending_def)

lemma gate_pending_cases:
  obtains (allow) "visibility_of tys t = None" "gate_pending tys t = Value \<lparr>result = ALLOW\<rparr>"
  | (ask) p where "visibility_of tys t = Some p"
      "gate_pending tys t = Load \<lparr>permission = p, resourceRef = None\<rparr> (\<lambda>d. d)"
  by (cases "visibility_of tys t") (auto simp add: gate_pending_def)

lemma settle_gate_length:
  "length ds = length (requests_of (map (gate_pending tys) rts))
   \<Longrightarrow> length (settle (map (gate_pending tys) rts) ds) = length rts"
proof (induction rts arbitrary: ds)
  case Nil
  then show ?case by simp
next
  case (Cons t rts)
  show ?case
  proof (cases t rule: gate_pending_cases [of tys])
    case allow
    with Cons show ?thesis by simp
  next
    case (ask p)
    with Cons.prems obtain d ds' where ds: "ds = d # ds'"
      and len: "length ds' = length (requests_of (map (gate_pending tys) rts))"
      by (cases ds) auto
    with Cons.IH [OF len] ask show ?thesis by simp
  qed
qed

lemma settle_gate_allow:
  "(t, v) \<in> set (zip rts (settle (map (gate_pending tys) rts) ds))
   \<Longrightarrow> visibility_of tys t = None
   \<Longrightarrow> length ds = length (requests_of (map (gate_pending tys) rts))
   \<Longrightarrow> v = \<lparr>result = ALLOW\<rparr>"
proof (induction rts arbitrary: ds)
  case Nil
  then show ?case by simp
next
  case (Cons u rts)
  show ?case
  proof (cases u rule: gate_pending_cases [of tys])
    case allow
    with Cons.prems have "(t, v) = (u, \<lparr>result = ALLOW\<rparr>)
        \<or> (t, v) \<in> set (zip rts (settle (map (gate_pending tys) rts) ds))"
      by simp
    then show ?thesis
    proof
      assume "(t, v) = (u, \<lparr>result = ALLOW\<rparr>)"
      then show ?thesis by simp
    next
      assume "(t, v) \<in> set (zip rts (settle (map (gate_pending tys) rts) ds))"
      moreover have "length ds = length (requests_of (map (gate_pending tys) rts))"
        using Cons.prems(3) allow by simp
      ultimately show ?thesis using Cons.IH Cons.prems(2) by blast
    qed
  next
    case (ask p)
    with Cons.prems(3) obtain d ds' where ds: "ds = d # ds'"
      and len: "length ds' = length (requests_of (map (gate_pending tys) rts))"
      by (cases ds) auto
    from ask Cons.prems(2) have "t \<noteq> u" by auto
    with Cons.prems(1) ask ds
    have "(t, v) \<in> set (zip rts (settle (map (gate_pending tys) rts) ds'))" by simp
    with Cons.IH [OF _ Cons.prems(2) len] show ?thesis by blast
  qed
qed

text \<open>A requested type without a visibility permission is decided ALLOW by the gate.\<close>

lemma type_gate_allows:
  assumes gate: "type_gate C tys opts rts S = (Inr td, S1)"
    and req: "t \<in> set rts"
    and none: "visibility_of tys t = None"
  shows "td t = Some \<lparr>result = ALLOW\<rparr>"
proof -
  from gate obtain xs where aw: "await_all C opts (map (gate_pending tys) rts) S = (Inr xs, S1)"
    and td: "td = zipObject rts xs"
    by (auto simp add: type_gate_def split: prod.splits sum.splits)
  from await_all_settle [OF aw] obtain ds where
    len: "length ds = length (requests_of (map (gate_pending tys) rts))"
    and xs: "xs = settle (map (gate_pending tys) rts) ds"
    by blast
  have "length rts = length xs" using settle_gate_length [OF len] xs by simp
  from zipObject_defined [OF req this] obtain v where v: "zipObject rts xs t = Some v" by auto
  then have "(t, v) \<in> set (zip rts xs)" by (rule zipObject_in_zip)
  then have "v = \<lparr>result = ALLOW\<rparr>"
    unfolding xs using none len by (rule settle_gate_allow)
  with v td show ?thesis by simp
qed

lemma gate_requests_skip:
  "visibility_of tys t = None
   \<Longrightarrow> gate_requests tys rts = gate_requests tys (filter (\<lambda>u. u \<noteq> t) rts)"
proof (induction rts)
  case Nil
  then show ?case by simp
next
  case (Cons u rts)
  show ?case
  proof (cases "u = t")
    case True
    with Cons show ?thesis by (simp add: gate_requests_def gate_pending_no_permission)
  next
    case False
    with Cons show ?thesis
      by (cases u rule: gate_pending_cases [of tys]) (simp_all add: gate_requests_def)
  qed
qed

text \<open>
  A result whose type is decided ALLOW, or has no visibility permission, is a plain value
  for \<open>Promise.all\<close>: the loader is not asked.
\<close>

lemma filter_pending_allowed:
  "decision_result td (type r) = Some ALLOW \<or> visibility_of tys (type r) = None
   \<Longrightarrow> filter_pending tys td r = Value (Some r)"
  by (auto simp add: filter_pending_def)

lemma requests_skip_allowed:
  assumes "decision_result td t = Some ALLOW \<or> visibility_of tys t = None"
  shows "per_document_requests tys td rs
         = per_document_requests tys td (filter (\<lambda>r. type r \<noteq> t) rs)"
proof (induction rs)
  case Nil
  then show ?case by simp
next
  case (Cons r rs)
  show ?case
  proof (cases "type r = t")
    case True
    with assms have "filter_pending tys td r = Value (Some r)"
      by (intro filter_pending_allowed) simp
    with True Cons show ?thesis by (simp add: per_document_requests_def)
  next
    case False
    with Cons show ?thesis
      by (cases r rule: filter_pending_cases [of tys td]) (simp_all add: per_document_requests_def)
  qed
qed

lemma kept_of_allowed:
  assumes "decision_result td t = Some ALLOW \<or> visibility_of tys t = None"
  shows "filter (\<lambda>r. type r = t) (compact (settle (map (filter_pending tys td) rs) ds))
         = filter (\<lambda>r. type r = t) rs"
proof (induction rs arbitrary: ds)
  case Nil
  then show ?case by (simp add: compact_simps)
next
  case (Cons r rs)
  show ?case
  proof (cases "type r = t")
    case True
    with assms have "filter_pending tys td r = Value (Some r)"
      by (intro filter_pending_allowed) simp
    with True Cons show ?thesis by (simp add: compact_simps)
  next
    case False
    show ?thesis
    proof (cases r rule: filter_pending_cases [of tys td])
      case keep
      with False Cons show ?thesis by (simp add: compact_simps)
    next
      case (check p)
      show ?thesis
      proof (cases ds)
        case Nil
        with False check(4) Cons.IH [of "[]"] show ?thesis by simp
      next
        case (Cons d ds')
        with False check(4) Cons.IH [of ds'] show ?thesis by (simp add: compact_simps)
      qed
    qed
  qed
qed

lemma filterResults_keeps_allowed:
  assumes "decision_result td t = Some ALLOW \<or> visibility_of tys t = None"
    and "filterResults C tys opts rs td S = (Inr out, S')"
  shows "filter (\<lambda>r. type r = t) out = filter (\<lambda>r. type r = t) rs"
proof -
  from assms(2) obtain xs where "await_all C opts (map (filter_pending tys td) rs) S = (Inr xs, S')"
    and out: "out = compact xs"
    by (auto simp add: filterResults_def split: prod.splits sum.splits)
  then obtain ds where "xs = settle (map (filter_pending tys td) rs) ds"
    by (auto dest: await_all_settle)
  with out kept_of_allowed [OF assms(1)] show ?thesis by simp
qed

lemma filterResults_authorize_calls:
  assumes "cache_fresh (fst S)" and "filterResults C tys opts rs td S = (res, S')"
  shows "authorize_calls (snd S')
         = authorize_calls (snd S)
           @ (if per_document_requests tys td rs = [] then []
              else [per_document_requests tys td rs])"
proof -
  let ?qs = "per_document_requests tys td rs"
  obtain r W1 where ask: "ask_permissions C opts ?qs (snd S) = (r, W1)"
    by (cases "ask_permissions C opts ?qs (snd S)")
  from filterResults_ask [OF assms(1), of C tys opts rs td "snd S"] obtain A' where
    "filterResults C tys opts rs td S
     = (case ask_permissions C opts ?qs (snd S) of
          (Inl err, W') \<Rightarrow> (Inl err, A', W')
        | (Inr ds, W') \<Rightarrow> (Inr (compact (settle (map (filter_pending tys td) rs) ds)), A', W'))"
    by auto
  with assms(2) ask have "snd S' = W1" by (cases r) auto
  with ask_permissions_calls [OF ask] show ?thesis by simp
qed

lemma type_gate_authorize_calls:
  assumes "cache_fresh (fst S)" and "type_gate C tys opts rts S = (res, S')"
  shows "authorize_calls (snd S')
         = authorize_calls (snd S)
           @ (if gate_requests tys rts = [] then [] else [gate_requests tys rts])"
proof -
  let ?qs = "gate_requests tys rts"
  obtain r W1 where ask: "ask_permissions C opts ?qs (snd S) = (r, W1)"
    by (cases "ask_permissions C opts ?qs (snd S)")
  from type_gate_ask [OF assms(1), of C tys opts rts "snd S"] obtain A' where
    "type_gate C tys opts rts S
     = (case ask_permissions C opts ?qs (snd S) of
          (Inl err, W') \<Rightarrow> (Inl err, A', W')
        | (Inr ds, W') \<Rightarrow>
            (Inr (zipObject rts (settle (map (gate_pending tys) rts) ds)), A', W'))"
    by auto
  with assms(2) ask have "snd S' = W1" by (cases r) auto
  with ask_permissions_calls [OF ask] show ?thesis by simp
qed

text \<open>
  C8: for a requested type \<open>t\<close> that has no visibility permission, or that the gate
  decides ALLOW, the decision held for \<open>t\<close> is ALLOW; a result of type \<open>t\<close> is a plain
  value in the filter, with no load for it; the per-document requests of a raw page are
  those of its results of the other types; every result of type \<open>t\<close> is in the filtered
  output, unchanged and in order; and the one call that the filter makes to the permission
  service, if it makes one, carries the requests of the other types' results only.
\<close>

theorem C8_allowed_type_no_document_checks:
  assumes gate: "type_gate C tys opts requestedTypes S0 = (Inr td, S1)"
    and req: "t \<in> set requestedTypes"
    and allow: "visibility_of tys t = None \<or> decision_result td t = Some ALLOW"
  shows "decision_result td t = Some ALLOW
         \<and> (\<forall>r. type r = t \<longrightarrow> filter_pending tys td r = Value (Some r))
         \<and> per_document_requests tys td rs
             = per_document_requests tys td (filter (\<lambda>r. type r \<noteq> t) rs)
         \<and> (filterResults C tys opts rs td S = (Inr out, S')
              \<longrightarrow> filter (\<lambda>r. type r = t) out = filter (\<lambda>r. type r = t) rs)
         \<and> (cache_fresh (fst S) \<longrightarrow> filterResults C tys opts rs td S = (res, S'')
              \<longrightarrow> authorize_calls (snd S'')
                  = authorize_calls (snd S)
                    @ (if per_document_requests tys td (filter (\<lambda>r. type r \<noteq> t) rs) = [] then []
                       else [per_document_requests tys td (filter (\<lambda>r. type r \<noteq> t) rs)]))"
proof -
  have dec: "decision_result td t = Some ALLOW"
  proof (cases "visibility_of tys t = None")
    case True
    from type_gate_allows [OF gate req True] show ?thesis by (simp add: decision_result_def)
  next
    case False
    with allow show ?thesis by simp
  qed
  then have either: "decision_result td t = Some ALLOW \<or> visibility_of tys t = None" by simp
  have skip: "per_document_requests tys td rs
              = per_document_requests tys td (filter (\<lambda>r. type r \<noteq> t) rs)"
    using either by (rule requests_skip_allowed)
  have plain: "\<forall>r. type r = t \<longrightarrow> filter_pending tys td r = Value (Some r)"
    using either by (auto intro: filter_pending_allowed)
  have kept: "filterResults C tys opts rs td S = (Inr out, S')
              \<longrightarrow> filter (\<lambda>r. type r = t) out = filter (\<lambda>r. type r = t) rs"
    using filterResults_keeps_allowed [OF either] by blast
  have calls: "cache_fresh (fst S) \<longrightarrow> filterResults C tys opts rs td S = (res, S'')
      \<longrightarrow> authorize_calls (snd S'')
          = authorize_calls (snd S)
            @ (if per_document_requests tys td (filter (\<lambda>r. type r \<noteq> t) rs) = [] then []
               else [per_document_requests tys td (filter (\<lambda>r. type r \<noteq> t) rs)])"
  proof (intro impI)
    assume "cache_fresh (fst S)" and "filterResults C tys opts rs td S = (res, S'')"
    from filterResults_authorize_calls [OF this] show "authorize_calls (snd S'')
          = authorize_calls (snd S)
            @ (if per_document_requests tys td (filter (\<lambda>r. type r \<noteq> t) rs) = [] then []
               else [per_document_requests tys td (filter (\<lambda>r. type r \<noteq> t) rs)])"
      by (simp only: skip [symmetric])
  qed
  from dec plain skip kept calls show ?thesis by blast
qed

theorem C8_allowed_type_witness:
  "''software-catalog'' \<in> set demo_types_all
   \<and> visibility_of demo_types ''software-catalog'' = None
   \<and> decision_result demo_decisions ''software-catalog'' = Some ALLOW
   \<and> filter (\<lambda>r. type r = ''software-catalog'')
        [demo_doc ''software-catalog'' ''c1'' None,
         demo_doc ''techdocs'' ''t1'' (Some ''component:a'')]
      = filter (\<lambda>r. type r = ''software-catalog'') (results demo_raw1)
   \<and> (\<exists>A W. filterResults demo_collaborators demo_types demo_options (results demo_raw1)
                demo_decisions (new_DataLoader, demo_world)
              = (Inr [demo_doc ''software-catalog'' ''c1'' None,
                      demo_doc ''techdocs'' ''t1'' (Some ''component:a'')], A, W)
            \<and> authorize_calls W
                = authorize_calls demo_world
                  @ [per_document_requests demo_types demo_decisions
                       (filter (\<lambda>r. type r \<noteq> ''software-catalog'') (results demo_raw1))])"
proof -
  let ?t = "''software-catalog''"
  let ?out = "[demo_doc ''software-catalog'' ''c1'' None,
               demo_doc ''techdocs'' ''t1'' (Some ''component:a'')]"
  let ?S = "(new_DataLoader, demo_world)"
  from demo_gate obtain A1 W1 where
    gate: "type_gate demo_collaborators demo_types demo_options demo_types_all ?S
           = (Inr demo_decisions, A1, W1)"
    by blast
  have req: "?t \<in> set demo_types_all" by (simp add: demo_types_all_def)
  have none: "visibility_of demo_types ?t = None" by (simp add: visibility_of_def demo_types_def)
  from demo_filter [OF new_DataLoader_fresh, of "results demo_raw1" demo_world] obtain A W where
    fil: "filterResults demo_collaborators demo_types demo_options (results demo_raw1)
            demo_decisions ?S = (Inr ?out, A, W)"
    by (auto simp add: demo_kept_first)
  have ne: "per_document_requests demo_types demo_decisions
              (filter (\<lambda>r. type r \<noteq> ?t) (results demo_raw1)) \<noteq> []"
    by (simp add: per_document_requests_def filter_pending_def visibility_of_def
          decision_result_def zipObject_def truthy_def demo_defs)
  from C8_allowed_type_no_document_checks [OF gate req disjI1 [OF none],
      of "results demo_raw1" ?S ?out "(A, W)" "Inr ?out" "(A, W)"] fil ne
    new_DataLoader_fresh req none
  show ?thesis by auto
qed

section \<open>A requested type that is not registered\<close>

lemma demo_adr_requested: "requested_types demo_types demo_query_adr = [''adr'']"
  by (simp add: requested_types_def demo_defs)

lemma demo_adr_authorized: "authorized_types demo_decisions_adr [''adr''] = [''adr'']"
  by (simp add: authorized_types_def decision_result_def zipObject_def demo_defs)

lemma demo_adr_decode: "decodePageCursor (pageCursor demo_query_adr) = Inr (Fin 0)"
  by (simp add: demo_query_adr_def demo_query_def decodePageCursor_def)

lemma demo_adr_gate:
  "\<exists>A. cache_fresh A
      \<and> type_gate demo_collaborators demo_types demo_options [''adr''] (new_DataLoader, demo_world)
          = (Inr demo_decisions_adr, A, demo_world)"
proof -
  have none: "gate_requests demo_types [''adr''] = []"
    by (simp add: gate_requests_def gate_pending_def visibility_of_def demo_defs)
  have val: "zipObject [''adr''] (settle [gate_pending demo_types ''adr''] [])
             = demo_decisions_adr"
    by (simp add: gate_pending_def visibility_of_def demo_defs)
  from type_gate_ask [OF new_DataLoader_fresh, of demo_collaborators demo_types demo_options
      "[''adr'']" demo_world]
  show ?thesis by (simp add: none ask_permissions_Nil val)
qed

lemma demo_adr_engine:
  "call_engine demo_collaborators demo_options demo_query_adr [''adr''] None (A, demo_world)
   = (Inr \<lparr>results = [demo_doc ''adr'' ''a1'' None], nextPageCursor = Some ''1'',
           previousPageCursor = None\<rparr>,
      A, \<lparr>ext = 10, engine_calls = [demo_query_adr], authorize_calls = []\<rparr>)"
  by (simp add: call_engine_def demo_defs)

lemma demo_adr_filter:
  assumes "cache_fresh A"
  shows "\<exists>A'. filterResults demo_collaborators demo_types demo_options
                 [demo_doc ''adr'' ''a1'' None] demo_decisions_adr (A, W)
               = (Inr [demo_doc ''adr'' ''a1'' None], A', W)"
proof -
  have none: "per_document_requests demo_types demo_decisions_adr [demo_doc ''adr'' ''a1'' None]
              = []"
    by (simp add: per_document_requests_def filter_pending_def visibility_of_def
          decision_result_def zipObject_def demo_defs)
  have val: "compact (settle [filter_pending demo_types demo_decisions_adr
                                (demo_doc ''adr'' ''a1'' None)] [])
             = [demo_doc ''adr'' ''a1'' None]"
    by (simp add: compact_simps filter_pending_def visibility_of_def decision_result_def
          zipObject_def demo_defs)
  from filterResults_ask [OF assms, of demo_collaborators demo_types demo_options
      "[demo_doc ''adr'' ''a1'' None]" demo_decisions_adr W]
  show ?thesis by (auto simp add: none ask_permissions_Nil val)
qed

lemma demo_run_adr:
  "query (Suc fuel) demo_collaborators demo_types (demo_config 1000 1) demo_query_adr
     demo_options demo_world
   = Some (Inr \<lparr>results = [demo_doc ''adr'' ''a1'' None], nextPageCursor = Some ''MQ=='',
                 previousPageCursor = None\<rparr>,
           \<lparr>ext = 10, engine_calls = [demo_query_adr], authorize_calls = []\<rparr>)"
proof -
  let ?np = "\<lparr>results = [demo_doc ''adr'' ''a1'' None], nextPageCursor = Some ''1'',
              previousPageCursor = None\<rparr>"
  let ?W2 = "\<lparr>ext = 10, engine_calls = [demo_query_adr], authorize_calls = []\<rparr> :: int world"
  let ?cfg = "demo_config 1000 1"
  from demo_adr_gate obtain A1 where f1: "cache_fresh A1"
    and gate: "type_gate demo_collaborators demo_types demo_options [''adr'']
                 (new_DataLoader, demo_world) = (Inr demo_decisions_adr, A1, demo_world)"
    by blast
  have eng: "call_engine demo_collaborators demo_options demo_query_adr [''adr''] None
               (A1, demo_world) = (Inr ?np, A1, ?W2)"
    by (rule demo_adr_engine)
  from demo_adr_filter [OF f1, of ?W2] obtain A2 where
    fil: "filterResults demo_collaborators demo_types demo_options (results ?np)
            demo_decisions_adr (A1, ?W2) = (Inr [demo_doc ''adr'' ''a1'' None], A2, ?W2)"
    by auto
  have loop: "backfill (Suc fuel) demo_collaborators demo_types ?cfg demo_options
                demo_query_adr demo_decisions_adr [''adr'']
                (date_now demo_collaborators (ext demo_world))
                (target_results ?cfg (Fin 0)) [] None (A1, demo_world)
              = Some (Inr ([] @ [demo_doc ''adr'' ''a1'' None], nextPageCursor ?np, False),
                      A2, ?W2)"
    by (subst backfill_stop [OF eng fil])
       (simp_all add: number_eval demo_collaborators_def demo_world_def)
  have gate': "type_gate demo_collaborators demo_types demo_options
                 (requested_types demo_types demo_query_adr) (new_DataLoader, demo_world)
               = (Inr demo_decisions_adr, A1, demo_world)"
    using gate by (simp only: demo_adr_requested)
  have loop': "backfill (Suc fuel) demo_collaborators demo_types ?cfg demo_options
                demo_query_adr demo_decisions_adr
                (authorized_types demo_decisions_adr (requested_types demo_types demo_query_adr))
                (date_now demo_collaborators (ext demo_world))
                (target_results ?cfg (Fin 0)) [] None (A1, demo_world)
              = Some (Inr ([] @ [demo_doc ''adr'' ''a1'' None], nextPageCursor ?np, False),
                      A2, ?W2)"
    using loop by (simp only: demo_adr_requested demo_adr_authorized)
  from query_ok [OF gate' demo_adr_decode loop'] show ?thesis
    by (simp add: finalize_def number_eval encode_1)
qed

text \<open>
  C10: a requested type \<open>t\<close> that the construction-time types mapping does not hold is
  treated like a type without a visibility permission. The gate gives it the decision ALLOW
  as a plain value; the gate's one call to the permission service, if there is one,
  carries the requests of the other requested types only; \<open>t\<close> is among the authorized
  types, and every call that the query makes to the underlying engine has \<open>t\<close> in its
  \<open>types\<close> restriction; a result of type \<open>t\<close> is a plain value in the filter, the
  per-document requests of a raw page are those of its results of the other types, and
  every result of type \<open>t\<close> is in the filtered output, unchanged and in order.
\<close>

theorem C10_unregistered_type_allowed:
  assumes gate: "type_gate C tys opts (requested_types tys q) (new_DataLoader, W) = (Inr td, S1)"
    and req: "t \<in> set (requested_types tys q)"
    and absent: "map_of tys t = None"
  shows "td t = Some \<lparr>result = ALLOW\<rparr>
         \<and> gate_pending tys t = Value \<lparr>result = ALLOW\<rparr>
         \<and> authorize_calls (snd S1)
             = authorize_calls W
               @ (if gate_requests tys (filter (\<lambda>u. u \<noteq> t) (requested_types tys q)) = [] then []
                  else [gate_requests tys (filter (\<lambda>u. u \<noteq> t) (requested_types tys q))])
         \<and> t \<in> set (authorized_types td (requested_types tys q))
         \<and> (query fuel C tys cfg q opts W = Some (res, W')
              \<longrightarrow> (\<exists>calls. engine_calls W' = engine_calls W @ calls
                     \<and> (\<forall>c \<in> set calls. \<exists>ts. types c = Some ts \<and> t \<in> set ts)))
         \<and> (\<forall>r. type r = t \<longrightarrow> filter_pending tys td r = Value (Some r))
         \<and> per_document_requests tys td rs
             = per_document_requests tys td (filter (\<lambda>r. type r \<noteq> t) rs)
         \<and> (filterResults C tys opts rs td S = (Inr out, S')
              \<longrightarrow> filter (\<lambda>r. type r = t) out = filter (\<lambda>r. type r = t) rs)"
proof -
  have none: "visibility_of tys t = None" using absent by (simp add: visibility_of_def)
  have td: "td t = Some \<lparr>result = ALLOW\<rparr>" using gate req none by (rule type_gate_allows)
  then have dec: "decision_result td t = Some ALLOW" by (simp add: decision_result_def)
  then have either: "decision_result td t = Some ALLOW \<or> visibility_of tys t = None" by simp
  have plain_gate: "gate_pending tys t = Value \<lparr>result = ALLOW\<rparr>"
    using none by (rule gate_pending_no_permission)
  have calls: "authorize_calls (snd S1)
             = authorize_calls W
               @ (if gate_requests tys (filter (\<lambda>u. u \<noteq> t) (requested_types tys q)) = [] then []
                  else [gate_requests tys (filter (\<lambda>u. u \<noteq> t) (requested_types tys q))])"
    using type_gate_authorize_calls [OF _ gate] new_DataLoader_fresh
    by (simp add: gate_requests_skip [OF none, symmetric])
  have auth: "t \<in> set (authorized_types td (requested_types tys q))"
    using req dec by (simp add: authorized_types_def)
  have eng: "query fuel C tys cfg q opts W = Some (res, W')
              \<longrightarrow> (\<exists>calls. engine_calls W' = engine_calls W @ calls
                     \<and> (\<forall>c \<in> set calls. \<exists>ts. types c = Some ts \<and> t \<in> set ts))"
  proof
    assume "query fuel C tys cfg q opts W = Some (res, W')"
    from query_engine_calls [OF this gate] auth
    show "\<exists>calls. engine_calls W' = engine_calls W @ calls
                     \<and> (\<forall>c \<in> set calls. \<exists>ts. types c = Some ts \<and> t \<in> set ts)"
      by blast
  qed
  have plain: "\<forall>r. type r = t \<longrightarrow> filter_pending tys td r = Value (Some r)"
    using either by (auto intro: filter_pending_allowed)
  have skip: "per_document_requests tys td rs
              = per_document_requests tys td (filter (\<lambda>r. type r \<noteq> t) rs)"
    using either by (rule requests_skip_allowed)
  have kept: "filterResults C tys opts rs td S = (Inr out, S')
              \<longrightarrow> filter (\<lambda>r. type r = t) out = filter (\<lambda>r. type r = t) rs"
    using filterResults_keeps_allowed [OF either] by blast
  from td plain_gate calls auth eng plain skip kept show ?thesis by blast
qed

theorem C10_unregistered_type_witness:
  "''adr'' \<in> set (requested_types demo_types demo_query_adr)
   \<and> map_of demo_types ''adr'' = None
   \<and> demo_decisions_adr ''adr'' = Some \<lparr>result = ALLOW\<rparr>
   \<and> ''adr'' \<in> set (authorized_types demo_decisions_adr (requested_types demo_types demo_query_adr))
   \<and> (\<exists>calls. [demo_query_adr] = engine_calls demo_world @ calls
         \<and> (\<forall>c \<in> set calls. \<exists>ts. types c = Some ts \<and> ''adr'' \<in> set ts))
   \<and> (\<exists>A W. filterResults demo_collaborators demo_types demo_options
                [demo_doc ''adr'' ''a1'' None] demo_decisions_adr (new_DataLoader, demo_world)
              = (Inr [demo_doc ''adr'' ''a1'' None], A, W))"
proof -
  let ?S = "(new_DataLoader, demo_world)"
  from demo_adr_gate obtain A1 where
    "type_gate demo_collaborators demo_types demo_options [''adr''] ?S
     = (Inr demo_decisions_adr, A1, demo_world)"
    by blast
  then have gate: "type_gate demo_collaborators demo_types demo_options
                     (requested_types demo_types demo_query_adr) ?S
                   = (Inr demo_decisions_adr, A1, demo_world)"
    by (simp only: demo_adr_requested)
  have req: "''adr'' \<in> set (requested_types demo_types demo_query_adr)"
    by (simp add: demo_adr_requested)
  have absent: "map_of demo_types ''adr'' = None" by (simp add: demo_types_def)
  from demo_adr_filter [OF new_DataLoader_fresh, of demo_world] obtain A2 where
    fil: "filterResults demo_collaborators demo_types demo_options
            [demo_doc ''adr'' ''a1'' None] demo_decisions_adr ?S
          = (Inr [demo_doc ''adr'' ''a1'' None], A2, demo_world)"
    by blast
  note run = demo_run_adr [of 0]
  from C10_unregistered_type_allowed [OF gate req absent,
      of "Suc 0" "demo_config 1000 1"
         "Inr \<lparr>results = [demo_doc ''adr'' ''a1'' None], nextPageCursor = Some ''MQ=='',
               previousPageCursor = None\<rparr>"
         "\<lparr>ext = 10, engine_calls = [demo_query_adr], authorize_calls = []\<rparr>"]
    run req absent fil
  show ?thesis by auto
qed

end
